theory Spec2Isabelle
  imports Main "HOL-Library.Multiset"
begin

section \<open>Common conventions\<close>

text \<open>
  The development embeds \<^verbatim>\<open>src/php-queries.cpp\<close>. Every failed \<^verbatim>\<open>assert\<close>, the fatal
  out-of-memory condition and every undefined signed overflow is a value of \<open>error\<close>;
  a function that can reach one returns \<open>error + 'a\<close>.
\<close>

datatype error = AssertFailed | NotEnoughMemory | SignedOverflow | OutOfBounds

text \<open>The conversion of an \<^verbatim>\<open>int\<close> argument to \<^verbatim>\<open>size_t\<close> (64 bits).\<close>

definition size_t_of_int :: "int \<Rightarrow> nat" where
  "size_t_of_int i = nat (i mod 2 ^ 64)"

text \<open>A value that an \<^verbatim>\<open>int\<close> (32 bits) can hold; signed arithmetic that leaves the range
  is undefined.\<close>

definition int32_ok :: "int \<Rightarrow> bool" where
  "int32_ok x = (- (2 ^ 31) \<le> x \<and> x < 2 ^ 31)"

section \<open>Last network error\<close>

definition MAX_NET_ERROR_LEN :: int where
  "MAX_NET_ERROR_LEN = 128"

text \<open>\<^verbatim>\<open>int l = strlen(s)\<close>: the conversion of a \<^verbatim>\<open>size_t\<close> to a 32-bit \<^verbatim>\<open>int\<close>.\<close>

definition int_of_size_t :: "nat \<Rightarrow> int" where
  "int_of_size_t n = (let m = int n mod 2 ^ 32 in if m \<ge> 2 ^ 31 then m - 2 ^ 32 else m)"

text \<open>
  \<^verbatim>\<open>save_last_net_error\<close>. The argument is a C string (\<open>None\<close> is \<^verbatim>\<open>nullptr\<close>); the result is
  the C string held by the static buffer \<^verbatim>\<open>last_net_error[MAX_NET_ERROR_LEN + 1]\<close> afterwards.
  A negative \<open>l\<close> would make \<^verbatim>\<open>memcpy\<close> run past the buffer.
\<close>

definition save_last_net_error :: "string option \<Rightarrow> error + string" where
  "save_last_net_error s =
     (case s of
        None \<Rightarrow> Inr []
      | Some str \<Rightarrow>
          (let l = int_of_size_t (length str);
               l = (if l \<ge> MAX_NET_ERROR_LEN then MAX_NET_ERROR_LEN - 1 else l)
           in if l < 0 then Inl OutOfBounds else Inr (take (nat l) str)))"

section \<open>Query memory allocator\<close>

text \<open>
  An address is a region and an offset into it. The two arrays of \<^verbatim>\<open>static_memory\<close> are the
  regions 0 and 1; every successful \<^verbatim>\<open>malloc\<close> opens a region that no address has named
  before. \<^verbatim>\<open>(char *)ptr + n\<close> adds to the offset.
\<close>

type_synonym ptr = "nat \<times> nat"

definition ptr_add :: "ptr \<Rightarrow> nat \<Rightarrow> ptr" where
  "ptr_add p n = (fst p, snd p + n)"

text \<open>Arithmetic in \<^verbatim>\<open>size_t\<close> (64 bits) wraps around.\<close>

definition size_t_add :: "nat \<Rightarrow> nat \<Rightarrow> nat" where
  "size_t_add a b = (a + b) mod 2 ^ 64"

definition static_pages_n :: nat where
  "static_pages_n = 2"

definition page_size :: nat where
  "page_size = 2 ^ 22"

definition max_mem :: nat where
  "max_mem = 2 ^ 27"

definition max_pages_n :: nat where
  "max_pages_n = 1000"

datatype state_t = st_empty | st_inited

text \<open>
  The variables of \<^verbatim>\<open>namespace qmem\<close> and \<^verbatim>\<open>qmem_generation\<close>. The arrays \<^verbatim>\<open>pages\<close> and
  \<^verbatim>\<open>pages_size\<close> are functions of the index. The \<^verbatim>\<open>std::multimap\<close> \<^verbatim>\<open>left\<close> is the list of
  its entries in iteration order: ascending in the key, entries of equal key in the order
  of their insertion. The last two fields stand for the C heap: the next unused region
  and the number of bytes \<^verbatim>\<open>malloc\<close> can still hand out.
\<close>

record qmem =
  pages :: "nat \<Rightarrow> ptr"
  pages_size :: "nat \<Rightarrow> nat"
  cur_mem :: nat
  used_mem :: nat
  pages_n :: nat
  state :: state_t
  left :: "(nat \<times> ptr) list"
  qmem_generation :: int
  heap_next :: nat
  heap_avail :: nat

definition sys_malloc :: "nat \<Rightarrow> qmem \<Rightarrow> (ptr \<times> qmem) option" where
  "sys_malloc sz s =
     (if sz \<le> heap_avail s
      then Some ((heap_next s, 0), s\<lparr>heap_next := heap_next s + 1, heap_avail := heap_avail s - sz\<rparr>)
      else None)"

definition sys_free :: "nat \<Rightarrow> qmem \<Rightarrow> qmem" where
  "sys_free sz s = s\<lparr>heap_avail := heap_avail s + sz\<rparr>"

text \<open>\<^verbatim>\<open>multimap::insert\<close>, \<^verbatim>\<open>multimap::lower_bound\<close> (an iterator is a position in the list,
  \<^verbatim>\<open>end()\<close> is the length) and \<^verbatim>\<open>multimap::erase\<close>.\<close>

fun multimap_insert :: "nat \<Rightarrow> ptr \<Rightarrow> (nat \<times> ptr) list \<Rightarrow> (nat \<times> ptr) list" where
  "multimap_insert k p [] = [(k, p)]"
| "multimap_insert k p (e # es) =
     (if fst e \<le> k then e # multimap_insert k p es else (k, p) # e # es)"

definition lower_bound :: "nat \<Rightarrow> (nat \<times> ptr) list \<Rightarrow> nat" where
  "lower_bound n es = length (takeWhile (\<lambda>e. fst e < n) es)"

definition multimap_erase :: "nat \<Rightarrow> (nat \<times> ptr) list \<Rightarrow> (nat \<times> ptr) list" where
  "multimap_erase i es = take i es @ drop (Suc i) es"

definition reg :: "ptr \<Rightarrow> nat \<Rightarrow> qmem \<Rightarrow> qmem" where
  "reg p ptr_size s = s\<lparr>left := multimap_insert ptr_size p (left s)\<rparr>"

text \<open>
  \<^verbatim>\<open>alloc_at_least\<close>. Beyond a ceiling the assertion of the branch (NOT ENOUGH MEMORY)
  stops the program, and so does the assertion on the result of \<^verbatim>\<open>malloc\<close>; the
  \<^verbatim>\<open>return nullptr\<close> behind the first is not reached.
\<close>

definition alloc_at_least :: "nat \<Rightarrow> nat \<Rightarrow> qmem \<Rightarrow> error + (ptr \<times> qmem)" where
  "alloc_at_least n use s =
     (let alloc_size = (if n \<ge> page_size then n else page_size)
      in if pages_n s = max_pages_n \<or> alloc_size > max_mem
            \<or> size_t_add alloc_size (cur_mem s) > max_mem
         then Inl NotEnoughMemory
         else
           (case sys_malloc alloc_size s of
              None \<Rightarrow> Inl AssertFailed
            | Some (p, s1) \<Rightarrow>
                (let s2 = s1\<lparr>pages := (pages s1)(pages_n s1 := p)\<rparr>;
                     s3 = s2\<lparr>pages_size := (pages_size s2)(pages_n s2 := alloc_size)\<rparr>;
                     s4 = (if use < alloc_size
                           then reg (ptr_add p use) (alloc_size - use) s3 else s3)
                 in Inr (p, s4\<lparr>pages_n := pages_n s4 + 1\<rparr>))))"

text \<open>The body of the loop of \<^verbatim>\<open>qmem_init\<close>, and \<^verbatim>\<open>qmem_init\<close>.\<close>

definition init_page :: "qmem \<Rightarrow> nat \<Rightarrow> qmem" where
  "init_page s i =
     (let s1 = s\<lparr>pages := (pages s)(i := (i, 0))\<rparr>;
          s2 = s1\<lparr>pages_size := (pages_size s1)(i := page_size)\<rparr>;
          s3 = s2\<lparr>cur_mem := size_t_add (cur_mem s2) page_size\<rparr>
      in reg (pages s3 i) (pages_size s3 i) s3)"

definition qmem_init :: "qmem \<Rightarrow> error + qmem" where
  "qmem_init s =
     (if state s \<noteq> st_empty then Inl AssertFailed
      else if left s \<noteq> [] then Inl AssertFailed
      else
        (let s1 = s\<lparr>cur_mem := 0\<rparr>;
             s2 = s1\<lparr>pages_n := static_pages_n\<rparr>;
             s3 = foldl init_page s2 [0..<static_pages_n]
         in Inr (s3\<lparr>state := st_inited\<rparr>)))"

definition qmem_malloc :: "nat \<Rightarrow> qmem \<Rightarrow> error + (ptr \<times> qmem)" where
  "qmem_malloc n s =
     (let i = lower_bound n (left s);
          s1 = s\<lparr>used_mem := size_t_add (used_mem s) n\<rparr>
      in if i = length (left s1) then alloc_at_least n n s1
         else
           (let p = snd (left s1 ! i);
                ptr_size = fst (left s1 ! i);
                s2 = s1\<lparr>left := multimap_erase i (left s1)\<rparr>;
                ptr_size = ptr_size - n;
                s3 = (if ptr_size > 0 then reg (ptr_add p n) ptr_size s2 else s2)
            in Inr (p, s3)))"

definition qmem_malloc_tmp :: "nat \<Rightarrow> qmem \<Rightarrow> error + (ptr \<times> qmem)" where
  "qmem_malloc_tmp n s =
     (let i = lower_bound n (left s)
      in if i = length (left s) then alloc_at_least n 0 s
         else Inr (snd (left s ! i), s))"

text \<open>
  \<^verbatim>\<open>qmem_malloc0\<close> fills the block it got with zeros. The bytes of a block are not part of
  the pool, so it is \<^verbatim>\<open>qmem_malloc\<close> on the pool.
\<close>

definition qmem_malloc0 :: "nat \<Rightarrow> qmem \<Rightarrow> error + (ptr \<times> qmem)" where
  "qmem_malloc0 n s = qmem_malloc n s"

text \<open>\<^verbatim>\<open>qmem_generation++\<close> on a \<^verbatim>\<open>long long\<close>: undefined at the largest value.\<close>

definition incr_generation :: "qmem \<Rightarrow> error + qmem" where
  "incr_generation s =
     (if qmem_generation s \<ge> 2 ^ 63 - 1 then Inl SignedOverflow
      else Inr (s\<lparr>qmem_generation := qmem_generation s + 1\<rparr>))"

definition reclaims :: "qmem \<Rightarrow> bool" where
  "reclaims s = (size_t_add (used_mem s) (used_mem s) > cur_mem s)"

definition qmem_free_ptrs :: "qmem \<Rightarrow> error + qmem" where
  "qmem_free_ptrs s =
     (let s3 = (if reclaims s
                then (let s1 = s\<lparr>left := []\<rparr>;
                          s2 = s1\<lparr>used_mem := 0\<rparr>
                      in foldl (\<lambda>t i. reg (pages t i) (pages_size t i) t) s2 [0..<pages_n s2])
                else s)
      in incr_generation s3)"

definition qmem_clear :: "qmem \<Rightarrow> error + qmem" where
  "qmem_clear s =
     (if state s \<noteq> st_inited then Inl AssertFailed
      else
        (let s1 = s\<lparr>left := []\<rparr>;
             s2 = s1\<lparr>used_mem := 0\<rparr>;
             s3 = foldl (\<lambda>t i. sys_free (pages_size t i) t) s2 [static_pages_n..<pages_n s2];
             s4 = s3\<lparr>state := st_empty\<rparr>
         in incr_generation s4))"

text \<open>
  The pool before its first \<^verbatim>\<open>qmem_init\<close>: static storage is zero-initialised. \<open>h\<close> is the
  number of bytes the C heap can hand out.
\<close>

definition qmem_zero :: "nat \<Rightarrow> qmem" where
  "qmem_zero h =
     \<lparr>pages = (\<lambda>i. (0, 0)), pages_size = (\<lambda>i. 0), cur_mem = 0, used_mem = 0, pages_n = 0,
      state = st_empty, left = [], qmem_generation = 0,
      heap_next = static_pages_n, heap_avail = h\<rparr>"

text \<open>
  A pool that \<^verbatim>\<open>qmem_init\<close> accepts and that holds no allocation: the pool before its first
  \<^verbatim>\<open>qmem_init\<close> and the pool that \<^verbatim>\<open>qmem_clear\<close> leaves.
\<close>

definition qmem_torn_down :: "qmem \<Rightarrow> bool" where
  "qmem_torn_down s =
     (state s = st_empty \<and> left s = [] \<and> used_mem s = 0 \<and> static_pages_n \<le> heap_next s)"

subsection \<open>Histories of the pool\<close>

text \<open>
  A block is an address and a size. A history pairs the pool with the blocks that are
  live: those \<^verbatim>\<open>qmem_malloc\<close> and \<^verbatim>\<open>qmem_malloc0\<close> returned and that no reclaim has taken
  back. \<^verbatim>\<open>qmem_malloc_tmp\<close> does not commit the block it shows, so it adds none;
  \<^verbatim>\<open>qmem_free_ptrs\<close> takes every block back when it reclaims and none when it does not;
  \<^verbatim>\<open>qmem_clear\<close> takes every block back.
\<close>

type_synonym block = "ptr \<times> nat"

datatype qmem_op = Init | Allocate nat | ZeroAllocate nat | AllocatePeek nat | SoftReclaim | HardReclaim

fun qmem_step :: "qmem_op \<Rightarrow> qmem \<times> block list \<Rightarrow> error + (qmem \<times> block list)" where
  "qmem_step Init (s, live) =
     (case qmem_init s of Inl e \<Rightarrow> Inl e | Inr s' \<Rightarrow> Inr (s', live))"
| "qmem_step (Allocate n) (s, live) =
     (case qmem_malloc n s of Inl e \<Rightarrow> Inl e | Inr (p, s') \<Rightarrow> Inr (s', (p, n) # live))"
| "qmem_step (ZeroAllocate n) (s, live) =
     (case qmem_malloc0 n s of Inl e \<Rightarrow> Inl e | Inr (p, s') \<Rightarrow> Inr (s', (p, n) # live))"
| "qmem_step (AllocatePeek n) (s, live) =
     (case qmem_malloc_tmp n s of Inl e \<Rightarrow> Inl e | Inr (p, s') \<Rightarrow> Inr (s', live))"
| "qmem_step SoftReclaim (s, live) =
     (case qmem_free_ptrs s of
        Inl e \<Rightarrow> Inl e
      | Inr s' \<Rightarrow> Inr (s', if reclaims s then [] else live))"
| "qmem_step HardReclaim (s, live) =
     (case qmem_clear s of Inl e \<Rightarrow> Inl e | Inr s' \<Rightarrow> Inr (s', []))"

text \<open>The histories after each call of a sequence, up to the first call that aborts.\<close>

fun qmem_trace :: "qmem_op list \<Rightarrow> qmem \<times> block list \<Rightarrow> (qmem \<times> block list) list" where
  "qmem_trace [] h = []"
| "qmem_trace (x # xs) h =
     (case qmem_step x h of Inl e \<Rightarrow> [] | Inr h' \<Rightarrow> h' # qmem_trace xs h')"

text \<open>The pool after a sequence of calls none of which aborts.\<close>

fun qmem_exec :: "qmem_op list \<Rightarrow> qmem \<times> block list \<Rightarrow> error + (qmem \<times> block list)" where
  "qmem_exec [] h = Inr h"
| "qmem_exec (x # xs) h =
     (case qmem_step x h of Inl e \<Rightarrow> Inl e | Inr h' \<Rightarrow> qmem_exec xs h')"

text \<open>The bytes of all pages the pool holds, static and dynamic.\<close>

definition total_reserved_bytes :: "qmem \<Rightarrow> nat" where
  "total_reserved_bytes s = (\<Sum>i<pages_n s. pages_size s i)"

definition free_bytes :: "qmem \<Rightarrow> nat" where
  "free_bytes s = sum_list (map fst (left s))"

text \<open>Two blocks overlap when some byte belongs to both.\<close>

definition overlap :: "block \<Rightarrow> block \<Rightarrow> bool" where
  "overlap a b =
     (fst (fst a) = fst (fst b)
      \<and> max (snd (fst a)) (snd (fst b)) < min (snd (fst a) + snd a) (snd (fst b) + snd b))"

fun no_overlap :: "block list \<Rightarrow> bool" where
  "no_overlap [] = True"
| "no_overlap (b # bs) = ((\<forall>c\<in>set bs. \<not> overlap b c) \<and> no_overlap bs)"

definition free_blocks :: "qmem \<Rightarrow> block list" where
  "free_blocks s = map (\<lambda>e. (snd e, fst e)) (left s)"

definition disjoint_blocks :: "block multiset \<Rightarrow> bool" where
  "disjoint_blocks M = (\<forall>b c. b \<in># M \<longrightarrow> c \<in># M - {#b#} \<longrightarrow> \<not> overlap b c)"

text \<open>
  The invariant of an initialised pool and its live blocks: the bounds on the pages, the
  accounting equation, and that free and live blocks lie in regions the heap has opened
  and are pairwise disjoint.
\<close>

definition qmem_inv :: "qmem \<Rightarrow> block list \<Rightarrow> bool" where
  "qmem_inv s live =
     (state s = st_inited \<and> cur_mem s = static_pages_n * page_size
      \<and> pages_n s \<le> max_pages_n
      \<and> (\<forall>i<pages_n s. pages_size s i \<le> max_mem \<and> snd (pages s i) = 0
                        \<and> fst (pages s i) < heap_next s)
      \<and> inj_on (\<lambda>i. fst (pages s i)) {..<pages_n s}
      \<and> used_mem s + free_bytes s = total_reserved_bytes s
      \<and> (\<forall>b\<in>set (free_blocks s @ live). fst (fst b) < heap_next s)
      \<and> disjoint_blocks (mset (free_blocks s @ live)))"

section \<open>Answer generators\<close>

text \<open>
  The types of this section are declared in \<^verbatim>\<open>PHP/php-queries.h\<close>, which is not among the
  sources. The enumerations have the constants, and the records the fields, that
  \<^verbatim>\<open>php-queries.cpp\<close> names for the memcached generator. A string that lives in the pool
  is the list of its bytes; \<open>None\<close> is \<^verbatim>\<open>nullptr\<close>. The tables of function pointers are fixed
  by \<^verbatim>\<open>get_mc_net_ansgen_functions\<close> and \<^verbatim>\<open>get_mc_ansgen_functions\<close>, so a call through a table
  is a call of the function it holds.
\<close>

datatype ansgen_state_t = st_ansgen_done | st_ansgen_error | st_ansgen_wait

datatype nq_state_t = nq_ok | nq_error

datatype mc_ansgen_packet_state_t = ap_any | ap_get | ap_store | ap_version | ap_other

record php_net_query_packet_answer_t =
  nq_state :: nq_state_t
  res :: "string option"
  res_len :: int
  desc :: "string option"

record net_ansgen_t =
  qmem_req_generation :: int
  ag_state :: ansgen_state_t
  ans :: php_net_query_packet_answer_t

record data_reader_t =
  rd_len :: int
  rd_extra :: string
  rd_readed :: int

record str_buf_t =
  sb_buf :: string
  sb_buf_len :: int
  sb_len :: int

record mc_ansgen_packet_t =
  base :: net_ansgen_t
  ap_state :: mc_ansgen_packet_state_t
  str_buf :: str_buf_t

text \<open>
  What \<^verbatim>\<open>mc_ansgen_packet_create\<close> needs from the missing header: the sizes of the three
  structures and the constant of \<^verbatim>\<open>nq_state_t\<close> with the value 0, which a zero-filled
  answer holds.
\<close>

record header_consts =
  sizeof_mc_ansgen_packet_t :: nat
  sizeof_answer_t :: nat
  sizeof_str_buf_t :: nat
  nq_state_zero :: nq_state_t

subsection \<open>String buffers\<close>

text \<open>\<^verbatim>\<open>read_str\<close>: the \<open>rd_len\<close> bytes at \<open>rd_extra\<close>; reading past them is out of bounds.\<close>

definition read_str :: "data_reader_t \<Rightarrow> error + string" where
  "read_str reader =
     (if rd_len reader < 0 \<or> int (length (rd_extra reader)) < rd_len reader then Inl OutOfBounds
      else Inr (take (nat (rd_len reader)) (rd_extra reader)))"

definition init_reader :: "string \<Rightarrow> data_reader_t" where
  "init_reader s = \<lparr>rd_len = int (length s), rd_extra = s, rd_readed = 0\<rparr>"

definition end_reader :: data_reader_t where
  "end_reader = init_reader [CHR ''E'', CHR ''N'', CHR ''D'', CHR 0x0D, CHR 0x0A]"

definition stored_reader :: data_reader_t where
  "stored_reader = init_reader (''STORED'' @ [CHR 0x0D, CHR 0x0A])"

definition notstored_reader :: data_reader_t where
  "notstored_reader = init_reader (''NOT_STORED'' @ [CHR 0x0D, CHR 0x0A])"

text \<open>
  \<^verbatim>\<open>str_buf_create\<close> and \<^verbatim>\<open>str_buf_append\<close>. \<open>sb_buf\<close> is the bytes the buffer holds; the
  address of the buffer in the pool is not recorded.
\<close>

definition str_buf_create :: "header_consts \<Rightarrow> qmem \<Rightarrow> error + (str_buf_t \<times> qmem)" where
  "str_buf_create hc s =
     (case qmem_malloc (sizeof_str_buf_t hc) s of
        Inl e \<Rightarrow> Inl e
      | Inr (p, s') \<Rightarrow> Inr (\<lparr>sb_buf = [], sb_buf_len = 0, sb_len = 0\<rparr>, s'))"

definition str_buf_append :: "str_buf_t \<Rightarrow> data_reader_t \<Rightarrow> qmem \<Rightarrow> error + (str_buf_t \<times> qmem)" where
  "str_buf_append b reader s =
     (let need = rd_len reader + sb_len b
      in if \<not> int32_ok need then Inl SignedOverflow
         else
           (case (if need \<ge> sb_buf_len b
                  then (let need = need * 2 + 1
                        in if \<not> int32_ok need then Inl SignedOverflow
                           else (case qmem_malloc (size_t_of_int need) s of
                                   Inl e \<Rightarrow> Inl e
                                 | Inr (new_buf, s') \<Rightarrow>
                                     Inr (b\<lparr>sb_buf := take (nat (sb_len b)) (sb_buf b),
                                            sb_buf_len := need\<rparr>, s')))
                  else Inr (b, s)) of
              Inl e \<Rightarrow> Inl e
            | Inr (b1, s1) \<Rightarrow>
                (case read_str reader of
                   Inl e \<Rightarrow> Inl e
                 | Inr bytes \<Rightarrow>
                     Inr (b1\<lparr>sb_buf := take (nat (sb_len b1)) (sb_buf b1) @ bytes,
                            sb_len := sb_len b1 + rd_len reader\<rparr>, s1))))"

definition str_buf_cstr :: "str_buf_t \<Rightarrow> string" where
  "str_buf_cstr b = take (nat (sb_len b)) (sb_buf b)"

definition str_buf_len :: "str_buf_t \<Rightarrow> int" where
  "str_buf_len b = sb_len b"

subsection \<open>The base generator\<close>

definition net_ansgen_is_alive :: "qmem \<Rightarrow> net_ansgen_t \<Rightarrow> bool" where
  "net_ansgen_is_alive s base_self = (qmem_req_generation base_self = qmem_generation s)"

definition net_ansgen_timeout :: "qmem \<Rightarrow> net_ansgen_t \<Rightarrow> error + net_ansgen_t" where
  "net_ansgen_timeout s base_self =
     (if ag_state base_self \<noteq> st_ansgen_wait then Inl AssertFailed
      else if net_ansgen_is_alive s base_self
      then Inr (base_self\<lparr>ans := (ans base_self)\<lparr>nq_state := nq_error, res := Some ''Timeout''\<rparr>,
                         qmem_req_generation := - 1\<rparr>)
      else Inr base_self)"

definition net_ansgen_error :: "qmem \<Rightarrow> net_ansgen_t \<Rightarrow> string \<Rightarrow> error + net_ansgen_t" where
  "net_ansgen_error s base_self val =
     (if ag_state base_self \<noteq> st_ansgen_wait then Inl AssertFailed
      else
        (let b1 = (if net_ansgen_is_alive s base_self
                   then base_self\<lparr>ans := (ans base_self)\<lparr>nq_state := nq_error, res := Some val\<rparr>\<rparr>
                   else base_self)
         in Inr (b1\<lparr>ag_state := st_ansgen_error\<rparr>)))"

definition net_ansgen_set_desc :: "qmem \<Rightarrow> net_ansgen_t \<Rightarrow> string \<Rightarrow> net_ansgen_t" where
  "net_ansgen_set_desc s base_self val =
     (if net_ansgen_is_alive s base_self
      then base_self\<lparr>ans := (ans base_self)\<lparr>desc := Some val\<rparr>\<rparr>
      else base_self)"

subsection \<open>The memcached generator\<close>

text \<open>The call \<^verbatim>\<open>base_self->func->error(base_self, msg)\<close> of the memcached functions.\<close>

definition mc_raise :: "qmem \<Rightarrow> mc_ansgen_packet_t \<Rightarrow> string \<Rightarrow> error + (mc_ansgen_packet_t \<times> qmem)" where
  "mc_raise s self msg =
     (case net_ansgen_error s (base self) msg of
        Inl e \<Rightarrow> Inl e
      | Inr b \<Rightarrow> Inr (self\<lparr>base := b\<rparr>, s))"

text \<open>
  The block that \<^verbatim>\<open>xstored\<close>, \<^verbatim>\<open>version\<close>, \<^verbatim>\<open>other\<close> and \<^verbatim>\<open>end\<close> share: when the generator is
  alive, append the fragment and publish the buffer as the answer; then enter
  \<^verbatim>\<open>st_ansgen_done\<close>.
\<close>

definition mc_publish ::
  "qmem \<Rightarrow> mc_ansgen_packet_t \<Rightarrow> data_reader_t \<Rightarrow> error + (mc_ansgen_packet_t \<times> qmem)" where
  "mc_publish s self reader =
     (case (if net_ansgen_is_alive s (base self)
            then (case str_buf_append (str_buf self) reader s of
                    Inl e \<Rightarrow> Inl e
                  | Inr (b, s') \<Rightarrow>
                      Inr (self\<lparr>str_buf := b,
                             base := (base self)\<lparr>ans := (ans (base self))
                               \<lparr>nq_state := nq_ok, res := Some (str_buf_cstr b),
                                res_len := str_buf_len b\<rparr>\<rparr>\<rparr>, s'))
            else Inr (self, s)) of
        Inl e \<Rightarrow> Inl e
      | Inr (self1, s1) \<Rightarrow> Inr (self1\<lparr>base := (base self1)\<lparr>ag_state := st_ansgen_done\<rparr>\<rparr>, s1))"

definition mc_ansgen_packet_xstored ::
  "qmem \<Rightarrow> mc_ansgen_packet_t \<Rightarrow> int \<Rightarrow> error + (mc_ansgen_packet_t \<times> qmem)" where
  "mc_ansgen_packet_xstored s self is_stored =
     (let self = (if ap_state self = ap_any then self\<lparr>ap_state := ap_store\<rparr> else self)
      in if ap_state self \<noteq> ap_store then mc_raise s self ''Unexpected STORED''
         else mc_publish s self (if is_stored \<noteq> 0 then stored_reader else notstored_reader))"

definition mc_ansgen_packet_value ::
  "qmem \<Rightarrow> mc_ansgen_packet_t \<Rightarrow> data_reader_t \<Rightarrow> error + (mc_ansgen_packet_t \<times> qmem)" where
  "mc_ansgen_packet_value s self reader =
     (let self = (if ap_state self = ap_any then self\<lparr>ap_state := ap_get\<rparr> else self)
      in if ap_state self \<noteq> ap_get then mc_raise s self ''Unexpected VALUE''
         else if net_ansgen_is_alive s (base self)
         then (case str_buf_append (str_buf self) reader s of
                 Inl e \<Rightarrow> Inl e
               | Inr (b, s') \<Rightarrow> Inr (self\<lparr>str_buf := b\<rparr>, s'))
         else Inr (self, s))"

definition mc_ansgen_packet_version ::
  "qmem \<Rightarrow> mc_ansgen_packet_t \<Rightarrow> data_reader_t \<Rightarrow> error + (mc_ansgen_packet_t \<times> qmem)" where
  "mc_ansgen_packet_version s self reader =
     (if ap_state self \<noteq> ap_version then Inr (self, s)
      else mc_publish s self reader)"

definition mc_ansgen_packet_set_query_type ::
  "qmem \<Rightarrow> mc_ansgen_packet_t \<Rightarrow> int \<Rightarrow> error + (mc_ansgen_packet_t \<times> qmem)" where
  "mc_ansgen_packet_set_query_type s self query_type =
     (let new_state = (if query_type = 1 then ap_version else ap_any)
      in if new_state = ap_any then Inr (self, s)
         else
           (let self = (if ap_state self = ap_any then self\<lparr>ap_state := new_state\<rparr> else self)
            in if ap_state self \<noteq> new_state then mc_raise s self ''Can't determine query type''
               else Inr (self, s)))"

definition mc_ansgen_packet_other ::
  "qmem \<Rightarrow> mc_ansgen_packet_t \<Rightarrow> data_reader_t \<Rightarrow> error + (mc_ansgen_packet_t \<times> qmem)" where
  "mc_ansgen_packet_other s self reader =
     (let self = (if ap_state self = ap_any then self\<lparr>ap_state := ap_other\<rparr> else self)
      in if ap_state self \<noteq> ap_other then mc_raise s self ''Unexpected \"other\" command''
         else mc_publish s self reader)"

definition mc_ansgen_packet_end ::
  "qmem \<Rightarrow> mc_ansgen_packet_t \<Rightarrow> error + (mc_ansgen_packet_t \<times> qmem)" where
  "mc_ansgen_packet_end s self =
     (if ag_state (base self) \<noteq> st_ansgen_wait then Inl AssertFailed
      else
        (let self = (if ap_state self = ap_any then self\<lparr>ap_state := ap_get\<rparr> else self)
         in if ap_state self \<noteq> ap_get then mc_raise s self ''Unexpected END''
            else mc_publish s self end_reader))"

text \<open>
  \<^verbatim>\<open>mc_ansgen_packet_create\<close>. The generator itself comes from \<^verbatim>\<open>malloc\<close>, whose result
  the code uses unchecked; the answer and the buffer come from the pool.
\<close>

definition mc_ansgen_packet_create ::
  "header_consts \<Rightarrow> qmem \<Rightarrow> error + (mc_ansgen_packet_t \<times> qmem)" where
  "mc_ansgen_packet_create hc s =
     (case sys_malloc (sizeof_mc_ansgen_packet_t hc) s of
        None \<Rightarrow> Inl OutOfBounds
      | Some (ansgen, s1) \<Rightarrow>
          (case qmem_malloc0 (sizeof_answer_t hc) s1 of
             Inl e \<Rightarrow> Inl e
           | Inr (a, s2) \<Rightarrow>
               (case str_buf_create hc s2 of
                  Inl e \<Rightarrow> Inl e
                | Inr (b, s3) \<Rightarrow>
                    Inr (\<lparr>base = \<lparr>qmem_req_generation = qmem_generation s,
                                  ag_state = st_ansgen_wait,
                                  ans = \<lparr>nq_state = nq_state_zero hc, res = None, res_len = 0,
                                         desc = None\<rparr>\<rparr>,
                          ap_state = ap_any, str_buf = b\<rparr>, s3))))"

text \<open>
  The five kinds of fragment a memcached generator is fed, the call each one makes, and
  the sub-state each one stands for.
\<close>

datatype mc_fragment =
  FValue data_reader_t | FEnd | FStored int | FVersion data_reader_t | FOther data_reader_t

fun mc_deliver ::
  "qmem \<Rightarrow> mc_ansgen_packet_t \<Rightarrow> mc_fragment \<Rightarrow> error + (mc_ansgen_packet_t \<times> qmem)" where
  "mc_deliver s self (FValue reader) = mc_ansgen_packet_value s self reader"
| "mc_deliver s self FEnd = mc_ansgen_packet_end s self"
| "mc_deliver s self (FStored is_stored) = mc_ansgen_packet_xstored s self is_stored"
| "mc_deliver s self (FVersion reader) = mc_ansgen_packet_version s self reader"
| "mc_deliver s self (FOther reader) = mc_ansgen_packet_other s self reader"

fun mc_fragment_state :: "mc_fragment \<Rightarrow> mc_ansgen_packet_state_t" where
  "mc_fragment_state (FValue reader) = ap_get"
| "mc_fragment_state FEnd = ap_get"
| "mc_fragment_state (FStored is_stored) = ap_store"
| "mc_fragment_state (FVersion reader) = ap_version"
| "mc_fragment_state (FOther reader) = ap_other"

text \<open>The message of the error each kind raises; no function raises one for a version
  fragment.\<close>

fun mc_fragment_message :: "mc_fragment \<Rightarrow> string option" where
  "mc_fragment_message (FValue reader) = Some ''Unexpected VALUE''"
| "mc_fragment_message FEnd = Some ''Unexpected END''"
| "mc_fragment_message (FStored is_stored) = Some ''Unexpected STORED''"
| "mc_fragment_message (FVersion reader) = None"
| "mc_fragment_message (FOther reader) = Some ''Unexpected \"other\" command''"

section \<open>Slot registry\<close>

text \<open>
  The two file-level statics \<^verbatim>\<open>begin_slot_id\<close> and \<^verbatim>\<open>end_slot_id\<close>. A \<^verbatim>\<open>slot_id_t\<close> is an
  \<^verbatim>\<open>int\<close>; every value the functions compute stays below \<open>2 ^ 31\<close>.
\<close>

record slots =
  begin_slot_id :: int
  end_slot_id :: int

definition max_slot_id :: int where
  "max_slot_id = 1000000000"

text \<open>
  \<^verbatim>\<open>init_slots\<close>. The argument \<open>r\<close> is the value \<^verbatim>\<open>lrand48()\<close> returns, a number in
  \<open>[0, 2 ^ 31)\<close>, on which the \<^verbatim>\<open>%\<close> of C and \<open>mod\<close> agree.
\<close>

definition init_slots :: "int \<Rightarrow> slots" where
  "init_slots r =
     (let v = r mod (max_slot_id div 4) + 1 in \<lparr>begin_slot_id = v, end_slot_id = v\<rparr>)"

definition create_slot :: "slots \<Rightarrow> int \<times> slots" where
  "create_slot s =
     (if end_slot_id s > max_slot_id then (- 1, s)
      else (end_slot_id s, s\<lparr>end_slot_id := end_slot_id s + 1\<rparr>))"

definition is_valid_slot :: "slots \<Rightarrow> int \<Rightarrow> bool" where
  "is_valid_slot s slot = (begin_slot_id s \<le> slot \<and> slot < end_slot_id s)"

definition clear_slots :: "int \<Rightarrow> slots \<Rightarrow> slots" where
  "clear_slots r s =
     (let s1 = s\<lparr>begin_slot_id := end_slot_id s\<rparr>
      in if begin_slot_id s1 > max_slot_id div 2 then init_slots r else s1)"

text \<open>
  Histories of the registry. Besides the window, a history records which ids
  \<^verbatim>\<open>create_slot\<close> has handed out since the most recent \<^verbatim>\<open>clear_slots\<close> (or since
  \<^verbatim>\<open>init_slots\<close>) and which ids it handed out earlier. The argument of \<open>ClearSlots\<close> is the
  value \<^verbatim>\<open>lrand48()\<close> would return if the call reseeds.
\<close>

datatype slot_op = CreateSlot | ClearSlots int

record slot_hist =
  sh_slots :: slots
  sh_issued :: "int list"
  sh_earlier :: "int list"

definition slot_start :: "int \<Rightarrow> slot_hist" where
  "slot_start r = \<lparr>sh_slots = init_slots r, sh_issued = [], sh_earlier = []\<rparr>"

fun slot_step :: "slot_hist \<Rightarrow> slot_op \<Rightarrow> slot_hist" where
  "slot_step h CreateSlot =
     (case create_slot (sh_slots h) of
        (r, s') \<Rightarrow> h\<lparr>sh_slots := s',
                      sh_issued := (if r = - 1 then sh_issued h else sh_issued h @ [r])\<rparr>)"
| "slot_step h (ClearSlots r) =
     \<lparr>sh_slots = clear_slots r (sh_slots h), sh_issued = [],
      sh_earlier = sh_earlier h @ sh_issued h\<rparr>"

definition slot_run :: "slot_op list \<Rightarrow> slot_hist \<Rightarrow> slot_hist" where
  "slot_run ops h = foldl slot_step h ops"

text \<open>
  What every history reached from \<^verbatim>\<open>init_slots\<close> satisfies: the window starts at 1 or
  above and holds exactly the ids handed out since the most recent \<^verbatim>\<open>clear_slots\<close>.
\<close>

definition slot_inv :: "slot_hist \<Rightarrow> bool" where
  "slot_inv h =
     (1 \<le> begin_slot_id (sh_slots h) \<and> begin_slot_id (sh_slots h) \<le> end_slot_id (sh_slots h)
      \<and> set (sh_issued h) = {begin_slot_id (sh_slots h) ..< end_slot_id (sh_slots h)})"

section \<open>Ring queues\<close>

text \<open>
  \<^verbatim>\<open>template<class DataT, int N> class StaticQueue\<close>. The capacity \<open>N\<close> is the first
  argument of every operation; the array \<^verbatim>\<open>q\<close> is a list of \<open>N\<close> records. A \<^verbatim>\<open>DataT *\<close>
  into the array is the index of the cell it points to, and \<open>None\<close> is \<^verbatim>\<open>nullptr\<close>.
\<close>

record 'a StaticQueue =
  sq_q :: "'a list"
  sq_begin :: int
  sq_end :: int
  sq_cnt :: int

definition StaticQueue_clear :: "'a StaticQueue \<Rightarrow> 'a StaticQueue" where
  "StaticQueue_clear s = s\<lparr>sq_begin := 0, sq_end := 0, sq_cnt := 0\<rparr>"

definition StaticQueue_empty :: "'a StaticQueue \<Rightarrow> bool" where
  "StaticQueue_empty s = (sq_cnt s = 0)"

definition StaticQueue_create :: "int \<Rightarrow> 'a StaticQueue \<Rightarrow> int option \<times> 'a StaticQueue" where
  "StaticQueue_create N s =
     (if sq_cnt s = N then (None, s)
      else
        (let res = sq_end s;
             s1 = s\<lparr>sq_end := sq_end s + 1\<rparr>;
             s2 = s1\<lparr>sq_cnt := sq_cnt s1 + 1\<rparr>;
             s3 = (if sq_end s2 = N then s2\<lparr>sq_end := 0\<rparr> else s2)
         in (Some res, s3)))"

definition StaticQueue_undo_create :: "int \<Rightarrow> int \<Rightarrow> 'a StaticQueue \<Rightarrow> error + 'a StaticQueue" where
  "StaticQueue_undo_create N event s =
     (let old_end = sq_end s - 1;
          old_end = (if old_end = - 1 then N - 1 else old_end)
      in if event \<noteq> old_end then Inl AssertFailed
         else Inr (s\<lparr>sq_end := old_end, sq_cnt := sq_cnt s - 1\<rparr>))"

definition StaticQueue_pop :: "int \<Rightarrow> 'a StaticQueue \<Rightarrow> int option \<times> 'a StaticQueue" where
  "StaticQueue_pop N s =
     (if StaticQueue_empty s then (None, s)
      else
        (let res = sq_begin s;
             s1 = s\<lparr>sq_begin := sq_begin s + 1\<rparr>;
             s2 = s1\<lparr>sq_cnt := sq_cnt s1 - 1\<rparr>;
             s3 = (if sq_begin s2 = N then s2\<lparr>sq_begin := 0\<rparr> else s2)
         in (Some res, s3)))"

text \<open>A caller fills the record behind the pointer that \<^verbatim>\<open>create\<close> returned.\<close>

definition StaticQueue_store :: "int \<Rightarrow> 'a \<Rightarrow> 'a StaticQueue \<Rightarrow> 'a StaticQueue" where
  "StaticQueue_store p v s = s\<lparr>sq_q := (sq_q s)[nat p := v]\<rparr>"

text \<open>
  The records that are created and not yet popped, oldest first: the \<open>sq_cnt\<close> cells
  from \<open>sq_begin\<close> on, around the end of the array.
\<close>

definition StaticQueue_pending :: "int \<Rightarrow> 'a StaticQueue \<Rightarrow> 'a list" where
  "StaticQueue_pending N s =
     map (\<lambda>i. sq_q s ! nat ((sq_begin s + int i) mod N)) [0..<nat (sq_cnt s)]"

definition StaticQueue_wf :: "int \<Rightarrow> 'a StaticQueue \<Rightarrow> bool" where
  "StaticQueue_wf N s =
     (int (length (sq_q s)) = N \<and> 0 \<le> sq_begin s \<and> sq_begin s < N \<and>
      0 \<le> sq_cnt s \<and> sq_cnt s \<le> N \<and> sq_end s = (sq_begin s + sq_cnt s) mod N)"

text \<open>
  Runs of \<^verbatim>\<open>create\<close> and \<^verbatim>\<open>pop\<close>. \<open>Create v\<close> calls \<^verbatim>\<open>create\<close> and, when it got a record,
  fills it with \<open>v\<close>; \<open>Pop\<close> calls \<^verbatim>\<open>pop\<close> and reads the record it got.
\<close>

datatype 'a queue_op = Create 'a | Pop

datatype 'a queue_out = Created | QueueFull | Popped 'a | QueueEmpty

fun StaticQueue_step :: "int \<Rightarrow> 'a queue_op \<Rightarrow> 'a StaticQueue \<Rightarrow> 'a queue_out \<times> 'a StaticQueue" where
  "StaticQueue_step N (Create v) s =
     (case StaticQueue_create N s of
        (None, s') \<Rightarrow> (QueueFull, s')
      | (Some p, s') \<Rightarrow> (Created, StaticQueue_store p v s'))"
| "StaticQueue_step N Pop s =
     (case StaticQueue_pop N s of
        (None, s') \<Rightarrow> (QueueEmpty, s')
      | (Some p, s') \<Rightarrow> (Popped (sq_q s' ! nat p), s'))"

fun StaticQueue_run :: "int \<Rightarrow> 'a queue_op list \<Rightarrow> 'a StaticQueue \<Rightarrow> 'a queue_out list" where
  "StaticQueue_run N [] s = []"
| "StaticQueue_run N (x # xs) s =
     (case StaticQueue_step N x s of (out, s') \<Rightarrow> out # StaticQueue_run N xs s')"

text \<open>
  The queue of the specification, in its words: a FIFO of capacity \<open>N\<close> whose \<open>create\<close>
  fails with QueueFull when \<open>N\<close> created records are un-popped and whose \<open>pop\<close> removes
  the oldest unconsumed record or returns nothing when the queue is empty.
\<close>

fun fifo_spec_step :: "int \<Rightarrow> 'a queue_op \<Rightarrow> 'a list \<Rightarrow> 'a queue_out \<times> 'a list" where
  "fifo_spec_step N (Create v) xs =
     (if int (length xs) = N then (QueueFull, xs) else (Created, xs @ [v]))"
| "fifo_spec_step N Pop [] = (QueueEmpty, [])"
| "fifo_spec_step N Pop (x # xs) = (Popped x, xs)"

fun fifo_spec_run :: "int \<Rightarrow> 'a queue_op list \<Rightarrow> 'a list \<Rightarrow> 'a queue_out list" where
  "fifo_spec_run N [] xs = []"
| "fifo_spec_run N (x # ops) xs =
     (case fifo_spec_step N x xs of (out, xs') \<Rightarrow> out # fifo_spec_run N ops xs')"

section \<open>Net events\<close>

text \<open>
  \<^verbatim>\<open>net_event_t\<close> and \<^verbatim>\<open>net_event_type_t\<close> are declared in \<^verbatim>\<open>PHP/php-queries.h\<close>, which is not
  among the sources; the record has the fields and the enumeration the constants that
  \<^verbatim>\<open>php-queries.cpp\<close> uses. A \<^verbatim>\<open>char *\<close> into the script allocator is an address, \<open>None\<close>
  is \<^verbatim>\<open>nullptr\<close>.
\<close>

datatype net_event_type_t = ne_rpc_answer | ne_rpc_error

record net_event_t =
  slot_id :: int
  ev_type :: net_event_type_t
  error_code :: int
  error_message :: string
  result :: "nat option"
  result_len :: int

text \<open>
  \<^verbatim>\<open>dl_allocate_safe\<close>. \<^verbatim>\<open>PHPScriptBase::ml_flag\<close> and \<^verbatim>\<open>dl::allocate\<close> belong to the script
  runtime and are arguments: the flag, and the function from a size to the address
  \<^verbatim>\<open>dl::allocate\<close> returns for it (\<open>None\<close> when it returns \<^verbatim>\<open>nullptr\<close>). The result points
  past the three \<^verbatim>\<open>int\<close>s of the string header.
\<close>

definition dl_allocate_safe :: "bool \<Rightarrow> (nat \<Rightarrow> nat option) \<Rightarrow> nat \<Rightarrow> error + nat option" where
  "dl_allocate_safe ml_flag dl_allocate sz =
     (if sz = 0 \<or> ml_flag then Inr None
      else if \<not> sz \<le> 2 ^ 30 - 13 then Inl AssertFailed
      else (case dl_allocate (sz + 13) of
              None \<Rightarrow> Inr None
            | Some dest \<Rightarrow> Inr (Some (dest + 12))))"

text \<open>
  \<^verbatim>\<open>alloc_net_event\<close> on the queue \<^verbatim>\<open>net_events\<close> of capacity \<open>N\<close>. The result is the status,
  the pointer written to \<^verbatim>\<open>*res\<close> (\<open>None\<close> when nothing is written) and the queue.
\<close>

definition alloc_net_event ::
  "int \<Rightarrow> slots \<Rightarrow> int \<Rightarrow> net_event_type_t \<Rightarrow> net_event_t StaticQueue
   \<Rightarrow> int \<times> int option \<times> net_event_t StaticQueue" where
  "alloc_net_event N sl slot type net_events =
     (if \<not> is_valid_slot sl slot then (0, None, net_events)
      else
        (case StaticQueue_create N net_events of
           (None, q1) \<Rightarrow> (- 2, None, q1)
         | (Some event, q1) \<Rightarrow>
             (let q2 = StaticQueue_store event ((sq_q q1 ! nat event)\<lparr>slot_id := slot\<rparr>) q1;
                  q3 = StaticQueue_store event ((sq_q q2 ! nat event)\<lparr>ev_type := type\<rparr>) q2
              in (1, Some event, q3))))"

definition unalloc_net_event ::
  "int \<Rightarrow> int \<Rightarrow> net_event_t StaticQueue \<Rightarrow> error + net_event_t StaticQueue" where
  "unalloc_net_event N event net_events = StaticQueue_undo_create N event net_events"

text \<open>
  \<^verbatim>\<open>create_rpc_answer_event\<close>. \<open>res_given\<close> says that the argument \<^verbatim>\<open>res\<close> is not
  \<^verbatim>\<open>nullptr\<close>; the result is the returned status, the pointer written to \<^verbatim>\<open>*res\<close> and the
  queue.
\<close>

definition create_rpc_answer_event ::
  "int \<Rightarrow> bool \<Rightarrow> (nat \<Rightarrow> nat option) \<Rightarrow> slots \<Rightarrow> int \<Rightarrow> int \<Rightarrow> bool
   \<Rightarrow> net_event_t StaticQueue \<Rightarrow> error + (int \<times> int option \<times> net_event_t StaticQueue)" where
  "create_rpc_answer_event N ml_flag dl_allocate sl slot len res_given net_events =
     (case alloc_net_event N sl slot ne_rpc_answer net_events of
        (status, ev, q1) \<Rightarrow>
          if status \<le> 0 then Inr (status, None, q1)
          else
            (case ev of
               None \<Rightarrow> Inl OutOfBounds
             | Some event \<Rightarrow>
                 (let finish = (\<lambda>q2.
                        let q3 = StaticQueue_store event
                                   ((sq_q q2 ! nat event)\<lparr>result_len := len\<rparr>) q2
                        in if \<not> res_given then Inl AssertFailed else Inr (1, Some event, q3))
                  in if len \<noteq> 0 then
                       (case dl_allocate_safe ml_flag dl_allocate (size_t_of_int len) of
                          Inl e \<Rightarrow> Inl e
                        | Inr None \<Rightarrow>
                            (case unalloc_net_event N event q1 of
                               Inl e \<Rightarrow> Inl e
                             | Inr q2 \<Rightarrow> Inr (- 1, None, q2))
                        | Inr (Some buf) \<Rightarrow>
                            finish (StaticQueue_store event
                                      ((sq_q q1 ! nat event)\<lparr>result := Some buf\<rparr>) q1))
                     else
                       finish (StaticQueue_store event
                                 ((sq_q q1 ! nat event)\<lparr>result := None\<rparr>) q1))))"

section \<open>Properties of the last network error\<close>

lemma int_of_size_t_small: "n < 2 ^ 31 \<Longrightarrow> int_of_size_t n = int n"
  by (simp add: int_of_size_t_def Let_def)

lemma save_last_net_error_short:
  "length str < 128 \<Longrightarrow> save_last_net_error (Some str) = Inr str"
  by (simp add: save_last_net_error_def MAX_NET_ERROR_LEN_def int_of_size_t_small)

lemma save_last_net_error_long:
  "128 \<le> length str \<Longrightarrow> length str < 2 ^ 31 \<Longrightarrow>
   save_last_net_error (Some str) = Inr (take 127 str)"
  by (simp add: save_last_net_error_def MAX_NET_ERROR_LEN_def int_of_size_t_small)

text \<open>
  C8. The claim promises that an error string of at most 128 bytes is stored unchanged.
  At a string of exactly 128 bytes the code keeps only the first 127 bytes.
\<close>

theorem save_last_net_error_at_128:
  "save_last_net_error (Some (replicate 128 (CHR ''e''))) = Inr (replicate 127 (CHR ''e''))
   \<and> replicate 127 (CHR ''e'') \<noteq> replicate 128 (CHR ''e'')"
proof
  show "save_last_net_error (Some (replicate 128 (CHR ''e''))) = Inr (replicate 127 (CHR ''e''))"
    by (simp add: save_last_net_error_long)
  show "replicate 127 (CHR ''e'') \<noteq> replicate 128 (CHR ''e'')"
  proof
    assume "replicate 127 (CHR ''e'') = replicate 128 (CHR ''e'')"
    then have "length (replicate 127 (CHR ''e'')) = length (replicate 128 (CHR ''e''))"
      by (rule arg_cong)
    then show False by simp
  qed
qed

section \<open>Properties of the query memory allocator\<close>

subsection \<open>The free-block index\<close>

lemma mset_multimap_insert: "mset (multimap_insert k p es) = add_mset (k, p) (mset es)"
  by (induction es) auto

lemma set_multimap_insert: "set (multimap_insert k p es) = insert (k, p) (set es)"
  by (induction es) auto

lemma sum_fst_multimap_insert:
  "sum_list (map fst (multimap_insert k p es)) = k + sum_list (map fst es)"
  by (induction es) auto

lemma sorted_multimap_insert:
  "sorted (map fst es) \<Longrightarrow> sorted (map fst (multimap_insert k p es))"
  by (induction es) (auto simp: set_multimap_insert)

lemma lower_bound_le: "lower_bound n es \<le> length es"
  by (simp add: lower_bound_def length_takeWhile_le)

lemma lower_bound_hit:
  "lower_bound n es \<noteq> length es \<Longrightarrow> n \<le> fst (es ! lower_bound n es)"
  unfolding lower_bound_def
  by (metis (mono_tags, lifting) length_takeWhile_le le_neq_implies_less not_le_imp_less
      nth_length_takeWhile)

lemma lower_bound_miss_iff: "lower_bound n es = length es \<longleftrightarrow> (\<forall>e\<in>set es. fst e < n)"
proof
  assume "lower_bound n es = length es"
  then have "takeWhile (\<lambda>e. fst e < n) es = es"
    unfolding lower_bound_def
    by (metis append_Nil2 length_append add_diff_cancel_left' length_0_conv takeWhile_dropWhile_id
        add.right_neutral add_left_cancel)
  then show "\<forall>e\<in>set es. fst e < n"
    by (metis set_takeWhileD)
next
  assume "\<forall>e\<in>set es. fst e < n"
  then show "lower_bound n es = length es"
    unfolding lower_bound_def by (metis takeWhile_eq_all_conv)
qed

text \<open>In an index in key order, \<^verbatim>\<open>lower_bound\<close> finds a smallest block that is large enough.\<close>

lemma lower_bound_best_fit:
  assumes "sorted (map fst es)" and "lower_bound n es \<noteq> length es" and "e \<in> set es" and "n \<le> fst e"
  shows "fst (es ! lower_bound n es) \<le> fst e"
proof -
  let ?i = "lower_bound n es"
  from assms(3) obtain j where j: "j < length es" "es ! j = e" by (auto simp: in_set_conv_nth)
  have i: "?i < length es" using assms(2) lower_bound_le [of n es] by simp
  have "?i \<le> j"
  proof (rule ccontr)
    assume "\<not> ?i \<le> j"
    then have "j < length (takeWhile (\<lambda>e. fst e < n) es)" by (simp add: lower_bound_def)
    then have "fst (es ! j) < n"
      by (metis nth_mem set_takeWhileD takeWhile_nth)
    with j assms(4) show False by simp
  qed
  then have "map fst es ! ?i \<le> map fst es ! j"
    using assms(1) j(1) by (simp add: sorted_iff_nth_mono del: nth_map)
  then show ?thesis using i j by simp
qed

lemma mset_multimap_erase:
  "i < length es \<Longrightarrow> add_mset (es ! i) (mset (multimap_erase i es)) = mset es"
proof -
  assume "i < length es"
  then have "es = take i es @ es ! i # drop (Suc i) es" by (rule id_take_nth_drop)
  then have "mset es = mset (take i es @ es ! i # drop (Suc i) es)" by simp
  then show ?thesis by (simp add: multimap_erase_def)
qed

lemma sum_fst_multimap_erase:
  "i < length es \<Longrightarrow> fst (es ! i) + sum_list (map fst (multimap_erase i es)) = sum_list (map fst es)"
proof -
  assume "i < length es"
  then have "es = take i es @ es ! i # drop (Suc i) es" by (rule id_take_nth_drop)
  then have "sum_list (map fst es) = sum_list (map fst (take i es @ es ! i # drop (Suc i) es))"
    by simp
  then show ?thesis by (simp add: multimap_erase_def)
qed

subsection \<open>Blocks\<close>

lemma overlap_sym: "overlap a b \<Longrightarrow> overlap b a"
  by (auto simp: overlap_def)

lemma overlap_region: "fst (fst a) \<noteq> fst (fst b) \<Longrightarrow> \<not> overlap a b"
  by (simp add: overlap_def)

text \<open>A block that overlaps a part of \<open>a\<close> overlaps \<open>a\<close>.\<close>

lemma overlap_part:
  assumes "overlap ((r, off), n) c" and "off0 \<le> off" and "off + n \<le> off0 + n0"
  shows "overlap ((r, off0), n0) c"
  using assms by (auto simp: overlap_def)

lemma not_overlap_split: "\<not> overlap ((r, off), n) ((r, off + n), m)"
  by (simp add: overlap_def)

lemma disjoint_blocks_empty: "disjoint_blocks {#}"
  by (simp add: disjoint_blocks_def)

lemma disjoint_blocks_add:
  "disjoint_blocks (add_mset a M) \<longleftrightarrow> (\<forall>c\<in>#M. \<not> overlap a c) \<and> disjoint_blocks M"
proof
  assume d: "disjoint_blocks (add_mset a M)"
  have "\<not> overlap a c" if "c \<in># M" for c
    using d that unfolding disjoint_blocks_def by (metis add_mset_remove_trivial union_single_eq_member)
  moreover have "\<not> overlap b c" if "b \<in># M" "c \<in># M - {#b#}" for b c
  proof -
    from that(1) have "add_mset a M - {#b#} = add_mset a (M - {#b#})" by simp
    with that have "b \<in># add_mset a M" "c \<in># add_mset a M - {#b#}" by simp_all
    with d show ?thesis unfolding disjoint_blocks_def by blast
  qed
  ultimately show "(\<forall>c\<in>#M. \<not> overlap a c) \<and> disjoint_blocks M"
    unfolding disjoint_blocks_def by blast
next
  assume h: "(\<forall>c\<in>#M. \<not> overlap a c) \<and> disjoint_blocks M"
  show "disjoint_blocks (add_mset a M)"
    unfolding disjoint_blocks_def
  proof (intro allI impI)
    fix b c
    assume b: "b \<in># add_mset a M" and c: "c \<in># add_mset a M - {#b#}"
    show "\<not> overlap b c"
    proof (cases "b = a")
      case True
      with c have "c \<in># M" by simp
      with h True show ?thesis by blast
    next
      case False
      with b have bM: "b \<in># M" by simp
      then have "add_mset a M - {#b#} = add_mset a (M - {#b#})" by simp
      with c have "c = a \<or> c \<in># M - {#b#}" by auto
      then show ?thesis
      proof
        assume "c = a"
        with h bM show ?thesis using overlap_sym by blast
      next
        assume "c \<in># M - {#b#}"
        with h bM show ?thesis unfolding disjoint_blocks_def by blast
      qed
    qed
  qed
qed

lemma disjoint_blocks_mono:
  assumes "M' \<subseteq># M" and "disjoint_blocks M"
  shows "disjoint_blocks M'"
  unfolding disjoint_blocks_def
proof (intro allI impI)
  fix b c
  assume b: "b \<in># M'" and c: "c \<in># M' - {#b#}"
  from assms(1) b have "b \<in># M" by (rule mset_subset_eqD)
  moreover from assms(1) c have "c \<in># M - {#b#}"
    by (metis diff_empty insert_DiffM insert_DiffM2 insert_subset_eq_iff
        minus_add_mset_if_not_in_lhs subset_eq_diff_conv)
  ultimately show "\<not> overlap b c" using assms(2) unfolding disjoint_blocks_def by blast
qed

lemma no_overlap_iff_disjoint: "no_overlap bs \<longleftrightarrow> disjoint_blocks (mset bs)"
  by (induction bs) (simp_all add: disjoint_blocks_empty disjoint_blocks_add)

subsection \<open>What the calls do to the pool\<close>

lemma alloc_at_least_Inr:
  assumes "alloc_at_least n use s = Inr (p, s')"
  shows "pages_n s \<noteq> max_pages_n" and "max n page_size \<le> max_mem"
    and "max n page_size \<le> heap_avail s" and "p = (heap_next s, 0)"
    and "s' = s\<lparr>pages := (pages s)(pages_n s := (heap_next s, 0)),
                pages_size := (pages_size s)(pages_n s := max n page_size),
                pages_n := pages_n s + 1,
                left := (if use < max n page_size
                         then multimap_insert (max n page_size - use) (heap_next s, use) (left s)
                         else left s),
                heap_next := heap_next s + 1,
                heap_avail := heap_avail s - max n page_size\<rparr>"
proof -
  have m: "(if n \<ge> page_size then n else page_size) = max n page_size" by (simp add: max_def)
  from assms show "pages_n s \<noteq> max_pages_n" "max n page_size \<le> max_mem"
    "max n page_size \<le> heap_avail s" "p = (heap_next s, 0)"
    unfolding alloc_at_least_def m Let_def sys_malloc_def
    by (auto split: if_splits)
  from assms show "s' = s\<lparr>pages := (pages s)(pages_n s := (heap_next s, 0)),
                pages_size := (pages_size s)(pages_n s := max n page_size),
                pages_n := pages_n s + 1,
                left := (if use < max n page_size
                         then multimap_insert (max n page_size - use) (heap_next s, use) (left s)
                         else left s),
                heap_next := heap_next s + 1,
                heap_avail := heap_avail s - max n page_size\<rparr>"
    unfolding alloc_at_least_def m Let_def sys_malloc_def
    by (auto simp: reg_def ptr_add_def split: if_splits)
qed

lemma qmem_init_Inr:
  assumes "state s = st_empty" and "left s = []"
  shows "qmem_init s =
           Inr (s\<lparr>pages := (pages s)(0 := (0, 0), 1 := (1, 0)),
                  pages_size := (pages_size s)(0 := page_size, 1 := page_size),
                  cur_mem := static_pages_n * page_size,
                  pages_n := static_pages_n,
                  left := [(page_size, (0, 0)), (page_size, (1, 0))],
                  state := st_inited\<rparr>)"
proof -
  have "[0..<Suc (Suc 0)] = [0, Suc 0]" by simp
  then have upt: "[0..<static_pages_n] = [0, 1]"
    by (simp add: static_pages_n_def numeral_2_eq_2)
  have c: "size_t_add (size_t_add 0 page_size) page_size = static_pages_n * page_size"
    by (simp add: size_t_add_def page_size_def static_pages_n_def)
  show ?thesis
    using assms unfolding qmem_init_def upt Let_def
    by (simp add: init_page_def reg_def Let_def c)
qed

lemma qmem_init_Inl: "state s \<noteq> st_empty \<Longrightarrow> qmem_init s = Inl AssertFailed"
  by (simp add: qmem_init_def)

text \<open>The loop of \<^verbatim>\<open>qmem_free_ptrs\<close> changes the index and nothing else.\<close>

lemma foldl_reg:
  "foldl (\<lambda>t i. reg (pages t i) (pages_size t i) t) t0 is =
     t0\<lparr>left := foldl (\<lambda>l i. multimap_insert (pages_size t0 i) (pages t0 i) l) (left t0) is\<rparr>"
  by (induction "is" arbitrary: t0) (simp_all add: reg_def)

lemma mset_foldl_insert:
  "mset (foldl (\<lambda>l i. multimap_insert (f i) (g i) l) l0 is) = mset l0 + mset (map (\<lambda>i. (f i, g i)) is)"
  by (induction "is" arbitrary: l0) (simp_all add: mset_multimap_insert)

lemma sum_fst_foldl_insert:
  "sum_list (map fst (foldl (\<lambda>l i. multimap_insert (f i) (g i) l) l0 is))
     = sum_list (map fst l0) + sum_list (map f is)"
  by (induction "is" arbitrary: l0) (simp_all add: sum_fst_multimap_insert)

lemma total_reserved_sum_list:
  "total_reserved_bytes s = sum_list (map (pages_size s) [0..<pages_n s])"
  by (simp add: total_reserved_bytes_def interv_sum_list_conv_sum_set_nat atLeast0LessThan)

lemma qmem_free_ptrs_reclaims:
  assumes "reclaims s" and "qmem_generation s < 2 ^ 63 - 1"
  shows "qmem_free_ptrs s =
           Inr (s\<lparr>left := foldl (\<lambda>l i. multimap_insert (pages_size s i) (pages s i) l) []
                            [0..<pages_n s],
                  used_mem := 0, qmem_generation := qmem_generation s + 1\<rparr>)"
  using assms by (simp add: qmem_free_ptrs_def Let_def foldl_reg incr_generation_def)

lemma qmem_free_ptrs_keeps:
  assumes "\<not> reclaims s" and "qmem_generation s < 2 ^ 63 - 1"
  shows "qmem_free_ptrs s = Inr (s\<lparr>qmem_generation := qmem_generation s + 1\<rparr>)"
  using assms by (simp add: qmem_free_ptrs_def Let_def incr_generation_def)

lemma qmem_free_ptrs_overflow:
  "\<not> qmem_generation s < 2 ^ 63 - 1 \<Longrightarrow> qmem_free_ptrs s = Inl SignedOverflow"
  by (simp add: qmem_free_ptrs_def Let_def incr_generation_def foldl_reg)

lemma incr_generation_Inr:
  "incr_generation s = Inr s' \<Longrightarrow> s' = s\<lparr>qmem_generation := qmem_generation s + 1\<rparr>"
  by (auto simp: incr_generation_def split: if_splits)

subsection \<open>The invariant\<close>

lemma total_reserved_bound:
  assumes "pages_n s \<le> max_pages_n" and "\<forall>i<pages_n s. pages_size s i \<le> max_mem"
  shows "total_reserved_bytes s \<le> max_pages_n * max_mem"
proof -
  have "(\<Sum>i<pages_n s. pages_size s i) \<le> (\<Sum>i<pages_n s. max_mem)"
    using assms(2) by (intro sum_mono) simp
  also have "\<dots> = pages_n s * max_mem" by simp
  also have "\<dots> \<le> max_pages_n * max_mem" using assms(1) by simp
  finally show ?thesis by (simp add: total_reserved_bytes_def)
qed

lemma qmem_inv_used_bound:
  assumes "qmem_inv s live"
  shows "used_mem s \<le> max_pages_n * max_mem" and "free_bytes s \<le> max_pages_n * max_mem"
proof -
  from assms have "total_reserved_bytes s \<le> max_pages_n * max_mem"
    by (intro total_reserved_bound) (simp_all add: qmem_inv_def)
  moreover from assms have "used_mem s + free_bytes s = total_reserved_bytes s"
    by (simp add: qmem_inv_def)
  ultimately show "used_mem s \<le> max_pages_n * max_mem" "free_bytes s \<le> max_pages_n * max_mem"
    by simp_all
qed

lemma size_t_add_small: "a \<le> max_pages_n * max_mem \<Longrightarrow> b \<le> max_pages_n * max_mem \<Longrightarrow> size_t_add a b = a + b"
  by (simp add: size_t_add_def max_pages_n_def max_mem_def)

lemma qmem_inv_drop_live: "qmem_inv s (b # live) \<Longrightarrow> qmem_inv s live"
  by (auto simp: qmem_inv_def disjoint_blocks_add)

lemma qmem_inv_no_live:
  assumes "qmem_inv s live"
  shows "qmem_inv s []"
proof -
  have "mset (free_blocks s) \<subseteq># mset (free_blocks s @ live)" by simp
  with assms have "disjoint_blocks (mset (free_blocks s))"
    unfolding qmem_inv_def by (blast intro: disjoint_blocks_mono)
  with assms show ?thesis by (simp add: qmem_inv_def)
qed

lemma qmem_inv_generation: "qmem_inv s live \<Longrightarrow> qmem_inv (s\<lparr>qmem_generation := g\<rparr>) live"
  by (simp add: qmem_inv_def free_bytes_def total_reserved_bytes_def free_blocks_def)

lemma qmem_inv_no_overlap: "qmem_inv s live \<Longrightarrow> no_overlap live"
proof -
  assume "qmem_inv s live"
  then have "disjoint_blocks (mset (free_blocks s @ live))" by (simp add: qmem_inv_def)
  moreover have "mset live \<subseteq># mset (free_blocks s @ live)" by simp
  ultimately have "disjoint_blocks (mset live)" by (blast intro: disjoint_blocks_mono)
  then show ?thesis by (simp add: no_overlap_iff_disjoint)
qed

text \<open>A call of \<^verbatim>\<open>alloc_at_least\<close> that opens a page and hands out its first \<open>use\<close> bytes.\<close>

lemma alloc_at_least_qmem_inv:
  assumes alloc: "alloc_at_least n use s = Inr (p, s')"
    and use: "use \<le> max n page_size"
    and inv: "qmem_inv (s\<lparr>used_mem := u0\<rparr>) live"
    and used: "used_mem s = u0 + use"
  shows "qmem_inv s' ((p, use) # live)"
proof -
  let ?a = "max n page_size"
  let ?hn = "heap_next s"
  note r = alloc_at_least_Inr [OF alloc]
  from inv have st: "state s = st_inited" and cm: "cur_mem s = static_pages_n * page_size"
    and pn: "pages_n s \<le> max_pages_n"
    and pg: "\<forall>i<pages_n s. pages_size s i \<le> max_mem \<and> snd (pages s i) = 0 \<and> fst (pages s i) < ?hn"
    and inj: "inj_on (\<lambda>i. fst (pages s i)) {..<pages_n s}"
    and acc: "u0 + free_bytes s = total_reserved_bytes s"
    and reg: "\<forall>b\<in>set (free_blocks s @ live). fst (fst b) < ?hn"
    and dis: "disjoint_blocks (mset (free_blocks s @ live))"
    by (simp_all add: qmem_inv_def free_bytes_def total_reserved_bytes_def free_blocks_def)
  have p: "p = (?hn, 0)" by (rule r(4))
  have s'_fields: "state s' = state s" "cur_mem s' = cur_mem s" "pages_n s' = Suc (pages_n s)"
    "used_mem s' = used_mem s" "heap_next s' = Suc ?hn"
    "pages s' = (pages s)(pages_n s := (?hn, 0))"
    "pages_size s' = (pages_size s)(pages_n s := ?a)"
    "left s' = (if use < ?a then multimap_insert (?a - use) (?hn, use) (left s) else left s)"
    by (simp_all add: r(5))
  have c1: "state s' = st_inited" "cur_mem s' = static_pages_n * page_size"
    using st cm by (simp_all add: s'_fields)
  have c2: "pages_n s' \<le> max_pages_n" using pn r(1) by (simp add: s'_fields)
  have c3: "\<forall>i<pages_n s'. pages_size s' i \<le> max_mem \<and> snd (pages s' i) = 0
              \<and> fst (pages s' i) < heap_next s'"
    using pg r(2) by (auto simp: s'_fields less_Suc_eq)
  have c4: "inj_on (\<lambda>i. fst (pages s' i)) {..<pages_n s'}"
  proof (rule inj_onI)
    fix i j
    assume i: "i \<in> {..<pages_n s'}" and j: "j \<in> {..<pages_n s'}"
      and eq: "fst (pages s' i) = fst (pages s' j)"
    show "i = j"
    proof (cases "i = pages_n s \<or> j = pages_n s")
      case True
      then show ?thesis using i j eq pg by (auto simp: s'_fields less_Suc_eq split: if_splits)
    next
      case False
      with i j have "i \<in> {..<pages_n s}" "j \<in> {..<pages_n s}" by (auto simp: s'_fields)
      moreover from False eq have "fst (pages s i) = fst (pages s j)" by (simp add: s'_fields)
      ultimately show ?thesis using inj by (auto dest: inj_onD)
    qed
  qed
  have tot: "total_reserved_bytes s' = total_reserved_bytes s + ?a"
    by (simp add: total_reserved_bytes_def s'_fields)
  have fb: "free_bytes s' = free_bytes s + (?a - use)"
  proof (cases "use < ?a")
    case True
    then show ?thesis by (simp add: free_bytes_def s'_fields sum_fst_multimap_insert)
  next
    case False
    then have "?a - use = 0" by (simp only: not_less diff_is_0_eq)
    with False show ?thesis by (simp add: free_bytes_def s'_fields)
  qed
  have c5: "used_mem s' + free_bytes s' = total_reserved_bytes s'"
    using acc used use by (simp add: tot fb s'_fields)
  have fbl: "mset (free_blocks s') =
      (if use < ?a then add_mset ((?hn, use), ?a - use) (mset (free_blocks s)) else mset (free_blocks s))"
    by (simp add: free_blocks_def s'_fields mset_multimap_insert)
  have c6: "\<forall>b\<in>set (free_blocks s' @ (p, use) # live). fst (fst b) < heap_next s'"
  proof
    fix b assume "b \<in> set (free_blocks s' @ (p, use) # live)"
    then have "b \<in># mset (free_blocks s') + add_mset (p, use) (mset live)" by simp
    then have "b = ((?hn, use), ?a - use) \<or> b = (p, use) \<or> b \<in> set (free_blocks s @ live)"
      unfolding fbl by (auto split: if_splits)
    then show "fst (fst b) < heap_next s'"
      using reg p by (auto simp: s'_fields less_Suc_eq)
  qed
  have fresh: "\<not> overlap ((?hn, off), m) c" if "c \<in># mset (free_blocks s @ live)" for off m c
  proof -
    from that reg have "fst (fst c) < ?hn" by auto
    then show ?thesis by (simp add: overlap_def)
  qed
  have d1: "disjoint_blocks (add_mset (p, use) (mset (free_blocks s @ live)))"
    using dis fresh unfolding p disjoint_blocks_add by blast
  have c7: "disjoint_blocks (mset (free_blocks s' @ (p, use) # live))"
  proof (cases "use < ?a")
    case True
    have "\<not> overlap ((?hn, use), ?a - use) (p, use)"
      unfolding p using not_overlap_split [of ?hn 0 use "?a - use"] overlap_sym by fastforce
    then have "disjoint_blocks (add_mset ((?hn, use), ?a - use)
                 (add_mset (p, use) (mset (free_blocks s @ live))))"
      using d1 fresh unfolding disjoint_blocks_add [of "((?hn, use), ?a - use)"] by auto
    moreover have "mset (free_blocks s' @ (p, use) # live) =
        add_mset ((?hn, use), ?a - use) (add_mset (p, use) (mset (free_blocks s @ live)))"
      using True by (simp add: fbl)
    ultimately show ?thesis by (simp only:)
  next
    case False
    then have "mset (free_blocks s' @ (p, use) # live) = add_mset (p, use) (mset (free_blocks s @ live))"
      by (simp add: fbl)
    with d1 show ?thesis by simp
  qed
  show ?thesis
    unfolding qmem_inv_def using c1 c2 c3 c4 c5 c6 c7 by blast
qed

lemma qmem_malloc_miss:
  assumes "lower_bound n (left s) = length (left s)"
  shows "qmem_malloc n s = alloc_at_least n n (s\<lparr>used_mem := size_t_add (used_mem s) n\<rparr>)"
  using assms by (simp add: qmem_malloc_def Let_def)

lemma qmem_malloc_hit:
  assumes "lower_bound n (left s) \<noteq> length (left s)"
  shows "qmem_malloc n s =
           Inr (snd (left s ! lower_bound n (left s)),
                s\<lparr>used_mem := size_t_add (used_mem s) n,
                  left := (if fst (left s ! lower_bound n (left s)) - n > 0
                           then multimap_insert (fst (left s ! lower_bound n (left s)) - n)
                                  (ptr_add (snd (left s ! lower_bound n (left s))) n)
                                  (multimap_erase (lower_bound n (left s)) (left s))
                           else multimap_erase (lower_bound n (left s)) (left s))\<rparr>)"
  using assms by (simp add: qmem_malloc_def Let_def reg_def)

lemma qmem_malloc_tmp_miss:
  "lower_bound n (left s) = length (left s) \<Longrightarrow> qmem_malloc_tmp n s = alloc_at_least n 0 s"
  by (simp add: qmem_malloc_tmp_def Let_def)

lemma qmem_malloc_tmp_hit:
  "lower_bound n (left s) \<noteq> length (left s) \<Longrightarrow>
   qmem_malloc_tmp n s = Inr (snd (left s ! lower_bound n (left s)), s)"
  by (simp add: qmem_malloc_tmp_def Let_def)

lemma qmem_malloc_inv:
  assumes inv: "qmem_inv s live" and m: "qmem_malloc n s = Inr (p, s')"
  shows "qmem_inv s' ((p, n) # live)"
proof (cases "lower_bound n (left s) = length (left s)")
  case True
  let ?s1 = "s\<lparr>used_mem := size_t_add (used_mem s) n\<rparr>"
  from m True have alloc: "alloc_at_least n n ?s1 = Inr (p, s')" by (simp add: qmem_malloc_miss)
  from alloc_at_least_Inr(2) [OF alloc] have "n \<le> max_mem" by simp
  then have "n \<le> max_pages_n * max_mem" by (simp add: max_pages_n_def)
  then have u: "used_mem ?s1 = used_mem s + n"
    using qmem_inv_used_bound(1) [OF inv] by (simp add: size_t_add_small)
  have "?s1\<lparr>used_mem := used_mem s\<rparr> = s" by simp
  with inv have "qmem_inv (?s1\<lparr>used_mem := used_mem s\<rparr>) live" by simp
  from alloc_at_least_qmem_inv [OF alloc _ this u] show ?thesis by simp
next
  case False
  let ?i = "lower_bound n (left s)"
  let ?sz = "fst (left s ! ?i)" and ?q = "snd (left s ! ?i)"
  let ?rest = "multimap_erase ?i (left s)"
  from False have i: "?i < length (left s)" using lower_bound_le [of n "left s"] by simp
  have nsz: "n \<le> ?sz" by (rule lower_bound_hit [OF False])
  have sum: "?sz + sum_list (map fst ?rest) = free_bytes s"
    unfolding free_bytes_def by (rule sum_fst_multimap_erase [OF i])
  then have "n \<le> free_bytes s" using nsz by simp
  then have "n \<le> max_pages_n * max_mem" using qmem_inv_used_bound(2) [OF inv] by simp
  then have u: "size_t_add (used_mem s) n = used_mem s + n"
    using qmem_inv_used_bound(1) [OF inv] by (simp add: size_t_add_small)
  from m False have p: "p = ?q"
    and s': "s' = s\<lparr>used_mem := used_mem s + n,
                     left := (if ?sz - n > 0
                              then multimap_insert (?sz - n) (ptr_add ?q n) ?rest else ?rest)\<rparr>"
    by (simp_all add: qmem_malloc_hit u)
  from inv have acc: "used_mem s + free_bytes s = total_reserved_bytes s"
    and reg: "\<forall>b\<in>set (free_blocks s @ live). fst (fst b) < heap_next s"
    and dis: "disjoint_blocks (mset (free_blocks s @ live))"
    by (simp_all add: qmem_inv_def)
  define R where "R = mset (map (\<lambda>e. (snd e, fst e)) ?rest) + mset live"
  have "add_mset (left s ! ?i) (mset ?rest) = mset (left s)" by (rule mset_multimap_erase [OF i])
  then have "image_mset (\<lambda>e. (snd e, fst e)) (add_mset (left s ! ?i) (mset ?rest))
               = image_mset (\<lambda>e. (snd e, fst e)) (mset (left s))" by simp
  then have old: "mset (free_blocks s @ live) = add_mset (?q, ?sz) R"
    by (simp add: free_blocks_def R_def)
  have fb: "free_bytes s' = free_bytes s - n"
    using sum nsz by (auto simp: s' free_bytes_def sum_fst_multimap_insert)
  have c5: "used_mem s' + free_bytes s' = total_reserved_bytes s'"
    using acc \<open>n \<le> free_bytes s\<close> by (simp add: fb) (simp add: s' total_reserved_bytes_def)
  have new: "mset (free_blocks s' @ (p, n) # live) =
      (if ?sz - n > 0 then add_mset (ptr_add ?q n, ?sz - n) (add_mset (?q, n) R)
       else add_mset (?q, n) R)"
    by (simp add: s' p free_blocks_def R_def mset_multimap_insert)
  from dis have dR: "disjoint_blocks R" and oR: "\<forall>c\<in>#R. \<not> overlap (?q, ?sz) c"
    unfolding old disjoint_blocks_add by simp_all
  have part1: "\<not> overlap (?q, n) c" if "c \<in># R" for c
  proof
    assume "overlap (?q, n) c"
    then have "overlap ((fst ?q, snd ?q), n) c" by simp
    then have "overlap ((fst ?q, snd ?q), ?sz) c"
      by (rule overlap_part) (use nsz in simp_all)
    with oR that show False by simp
  qed
  have part2: "\<not> overlap (ptr_add ?q n, ?sz - n) c" if "c \<in># R" for c
  proof
    assume "overlap (ptr_add ?q n, ?sz - n) c"
    then have "overlap ((fst ?q, snd ?q + n), ?sz - n) c" by (simp add: ptr_add_def)
    then have "overlap ((fst ?q, snd ?q), ?sz) c"
      by (rule overlap_part) (use nsz in simp_all)
    with oR that show False by simp
  qed
  have d1: "disjoint_blocks (add_mset (?q, n) R)"
    using dR part1 unfolding disjoint_blocks_add by blast
  have "\<not> overlap (ptr_add ?q n, ?sz - n) (?q, n)"
    using not_overlap_split [of "fst ?q" "snd ?q" n "?sz - n"] overlap_sym
    by (fastforce simp: ptr_add_def)
  then have d2: "disjoint_blocks (add_mset (ptr_add ?q n, ?sz - n) (add_mset (?q, n) R))"
    using d1 part2 unfolding disjoint_blocks_add [of "(ptr_add ?q n, ?sz - n)"] by auto
  have c7: "disjoint_blocks (mset (free_blocks s' @ (p, n) # live))"
    unfolding new using d1 d2 by simp
  have qreg: "fst ?q < heap_next s"
  proof -
    have "(?q, ?sz) \<in># mset (free_blocks s @ live)" unfolding old by simp
    then have "(?q, ?sz) \<in> set (free_blocks s @ live)" by (simp only: set_mset_mset)
    with reg show ?thesis by fastforce
  qed
  have c6: "\<forall>b\<in>set (free_blocks s' @ (p, n) # live). fst (fst b) < heap_next s'"
  proof
    fix b assume "b \<in> set (free_blocks s' @ (p, n) # live)"
    then have "b \<in># mset (free_blocks s' @ (p, n) # live)" by (simp only: set_mset_mset)
    then have "b = (ptr_add ?q n, ?sz - n) \<or> b = (?q, n) \<or> b \<in># R"
      unfolding new by (auto split: if_splits)
    moreover have inR: "fst (fst c) < heap_next s" if "c \<in># R" for c
    proof -
      from that have "c \<in># mset (free_blocks s @ live)" unfolding old by simp
      then have "c \<in> set (free_blocks s @ live)" by (simp only: set_mset_mset)
      with reg show ?thesis by blast
    qed
    ultimately consider "b = (ptr_add ?q n, ?sz - n)" | "b = (?q, n)" | "b \<in># R" by blast
    then show "fst (fst b) < heap_next s'"
    proof cases
      case 1
      with qreg show ?thesis by (simp add: s' ptr_add_def)
    next
      case 2
      with qreg show ?thesis by (simp add: s')
    next
      case 3
      then have "fst (fst b) < heap_next s" by (rule inR)
      then show ?thesis by (simp add: s')
    qed
  qed
  from inv have "state s' = st_inited \<and> cur_mem s' = static_pages_n * page_size
      \<and> pages_n s' \<le> max_pages_n
      \<and> (\<forall>i<pages_n s'. pages_size s' i \<le> max_mem \<and> snd (pages s' i) = 0
                        \<and> fst (pages s' i) < heap_next s')
      \<and> inj_on (\<lambda>i. fst (pages s' i)) {..<pages_n s'}"
    by (simp add: qmem_inv_def s')
  with c5 c6 c7 show ?thesis unfolding qmem_inv_def by blast
qed

lemma qmem_malloc_tmp_inv:
  assumes inv: "qmem_inv s live" and m: "qmem_malloc_tmp n s = Inr (p, s')"
  shows "qmem_inv s' live"
proof (cases "lower_bound n (left s) = length (left s)")
  case True
  with m have alloc: "alloc_at_least n 0 s = Inr (p, s')" by (simp add: qmem_malloc_tmp_miss)
  from inv have "qmem_inv (s\<lparr>used_mem := used_mem s\<rparr>) live" by simp
  from alloc_at_least_qmem_inv [OF alloc _ this] have "qmem_inv s' ((p, 0) # live)" by simp
  then show ?thesis by (rule qmem_inv_drop_live)
next
  case False
  with m have "s' = s" by (simp add: qmem_malloc_tmp_hit)
  with inv show ?thesis by simp
qed

text \<open>After a reclaim every page is one free block.\<close>

lemma disjoint_pages:
  assumes "inj_on (\<lambda>i. fst (pg i)) {..<n}"
  shows "disjoint_blocks (mset (map (\<lambda>i. (pg i, sz i)) [0..<n]))"
  using assms
proof (induction n)
  case 0
  then show ?case by (simp add: disjoint_blocks_empty)
next
  case (Suc n)
  from Suc.prems have "inj_on (\<lambda>i. fst (pg i)) {..<n}"
    by (rule inj_on_subset) auto
  then have IH: "disjoint_blocks (mset (map (\<lambda>i. (pg i, sz i)) [0..<n]))" by (rule Suc.IH)
  have "\<not> overlap (pg n, sz n) c" if "c \<in># mset (map (\<lambda>i. (pg i, sz i)) [0..<n])" for c
  proof -
    from that obtain j where j: "j < n" "c = (pg j, sz j)" by auto
    with Suc.prems have "fst (pg n) \<noteq> fst (pg j)" by (auto dest: inj_onD)
    then show ?thesis by (simp add: overlap_def j)
  qed
  with IH show ?case by (simp add: disjoint_blocks_add)
qed

lemma qmem_free_ptrs_inv:
  assumes inv: "qmem_inv s live" and f: "qmem_free_ptrs s = Inr s'"
  shows "qmem_inv s' (if reclaims s then [] else live)"
proof -
  from f have g: "qmem_generation s < 2 ^ 63 - 1"
    using qmem_free_ptrs_overflow [of s] by fastforce
  show ?thesis
  proof (cases "reclaims s")
    case False
    with f g have "s' = s\<lparr>qmem_generation := qmem_generation s + 1\<rparr>"
      by (simp add: qmem_free_ptrs_keeps)
    with inv False show ?thesis by (simp add: qmem_inv_generation)
  next
    case True
    let ?l = "foldl (\<lambda>l i. multimap_insert (pages_size s i) (pages s i) l) [] [0..<pages_n s]"
    from f g True have s': "s' = s\<lparr>left := ?l, used_mem := 0,
                                     qmem_generation := qmem_generation s + 1\<rparr>"
      by (simp add: qmem_free_ptrs_reclaims)
    from inv have pg: "\<forall>i<pages_n s. pages_size s i \<le> max_mem \<and> snd (pages s i) = 0
                         \<and> fst (pages s i) < heap_next s"
      and inj: "inj_on (\<lambda>i. fst (pages s i)) {..<pages_n s}"
      by (simp_all add: qmem_inv_def)
    have c5: "used_mem s' + free_bytes s' = total_reserved_bytes s'"
      by (simp add: s' free_bytes_def sum_fst_foldl_insert)
        (simp add: total_reserved_bytes_def interv_sum_list_conv_sum_set_nat atLeast0LessThan)
    have "mset ?l = mset (map (\<lambda>i. (pages_size s i, pages s i)) [0..<pages_n s])"
      by (simp add: mset_foldl_insert)
    then have "image_mset (\<lambda>e. (snd e, fst e)) (mset ?l) =
        image_mset (\<lambda>e. (snd e, fst e)) (mset (map (\<lambda>i. (pages_size s i, pages s i)) [0..<pages_n s]))"
      by (rule arg_cong)
    then have fbl: "mset (free_blocks s') = mset (map (\<lambda>i. (pages s i, pages_size s i)) [0..<pages_n s])"
      by (simp add: s' free_blocks_def multiset.map_comp comp_def)
    have c7: "disjoint_blocks (mset (free_blocks s' @ []))"
      using disjoint_pages [OF inj] by (simp add: fbl)
    have c6: "\<forall>b\<in>set (free_blocks s' @ []). fst (fst b) < heap_next s'"
    proof
      fix b assume "b \<in> set (free_blocks s' @ [])"
      then have "b \<in># mset (free_blocks s')" by simp
      then obtain i where "i < pages_n s" "b = (pages s i, pages_size s i)"
        unfolding fbl by auto
      with pg show "fst (fst b) < heap_next s'" by (simp add: s')
    qed
    from inv have "state s' = st_inited \<and> cur_mem s' = static_pages_n * page_size
        \<and> pages_n s' \<le> max_pages_n
        \<and> (\<forall>i<pages_n s'. pages_size s' i \<le> max_mem \<and> snd (pages s' i) = 0
                          \<and> fst (pages s' i) < heap_next s')
        \<and> inj_on (\<lambda>i. fst (pages s' i)) {..<pages_n s'}"
      by (simp add: qmem_inv_def s')
    with c5 c6 c7 True show ?thesis unfolding qmem_inv_def by simp
  qed
qed

lemma qmem_init_inv:
  assumes "qmem_torn_down s" and "qmem_init s = Inr s'"
  shows "qmem_inv s' []"
proof -
  from assms(1) have e: "state s = st_empty" "left s = []" "used_mem s = 0"
    and h: "static_pages_n \<le> heap_next s"
    by (simp_all add: qmem_torn_down_def)
  from assms(2) have s': "s' = s\<lparr>pages := (pages s)(0 := (0, 0), 1 := (1, 0)),
                  pages_size := (pages_size s)(0 := page_size, 1 := page_size),
                  cur_mem := static_pages_n * page_size,
                  pages_n := static_pages_n,
                  left := [(page_size, (0, 0)), (page_size, (1, 0))],
                  state := st_inited\<rparr>"
    by (simp add: qmem_init_Inr [OF e(1,2)])
  have two: "static_pages_n = Suc (Suc 0)" by (simp add: static_pages_n_def)
  have lt2: "i < Suc (Suc 0) \<longleftrightarrow> i = 0 \<or> i = 1" for i by auto
  have c3: "\<forall>i<pages_n s'. pages_size s' i \<le> max_mem \<and> snd (pages s' i) = 0
              \<and> fst (pages s' i) < heap_next s'"
    using h by (auto simp: s' two lt2 page_size_def max_mem_def)
  have c4: "inj_on (\<lambda>i. fst (pages s' i)) {..<pages_n s'}"
    by (rule inj_onI) (auto simp: s' two lt2 split: if_splits)
  have c5: "used_mem s' + free_bytes s' = total_reserved_bytes s'"
    using e(3) by (simp add: s' free_bytes_def total_reserved_bytes_def two)
  have c6: "\<forall>b\<in>set (free_blocks s' @ []). fst (fst b) < heap_next s'"
    using h by (simp add: s' free_blocks_def two)
  have c7: "disjoint_blocks (mset (free_blocks s' @ []))"
    by (simp add: s' free_blocks_def disjoint_blocks_add disjoint_blocks_empty overlap_def)
  have "state s' = st_inited" "cur_mem s' = static_pages_n * page_size" "pages_n s' \<le> max_pages_n"
    by (simp_all add: s' static_pages_n_def max_pages_n_def)
  with c3 c4 c5 c6 c7 show ?thesis unfolding qmem_inv_def by blast
qed

lemma qmem_step_inv:
  assumes "qmem_inv s live" and "x \<noteq> HardReclaim" and "qmem_step x (s, live) = Inr (s', live')"
  shows "qmem_inv s' live'"
proof (cases x)
  case Init
  from assms(1) have "state s \<noteq> st_empty" by (simp add: qmem_inv_def)
  then have "qmem_init s = Inl AssertFailed" by (rule qmem_init_Inl)
  with assms(3) Init show ?thesis by simp
next
  case (Allocate n)
  with assms(3) obtain p where "qmem_malloc n s = Inr (p, s')" "live' = (p, n) # live"
    by (auto split: sum.splits)
  with assms(1) show ?thesis by (simp add: qmem_malloc_inv)
next
  case (ZeroAllocate n)
  with assms(3) obtain p where "qmem_malloc n s = Inr (p, s')" "live' = (p, n) # live"
    by (auto simp: qmem_malloc0_def split: sum.splits)
  with assms(1) show ?thesis by (simp add: qmem_malloc_inv)
next
  case (AllocatePeek n)
  with assms(3) obtain p where "qmem_malloc_tmp n s = Inr (p, s')" "live' = live"
    by (auto split: sum.splits)
  with assms(1) show ?thesis by (simp add: qmem_malloc_tmp_inv)
next
  case SoftReclaim
  with assms(3) have "qmem_free_ptrs s = Inr s'" "live' = (if reclaims s then [] else live)"
    by (auto split: sum.splits)
  with assms(1) show ?thesis by (simp add: qmem_free_ptrs_inv)
next
  case HardReclaim
  with assms(2) show ?thesis by simp
qed

lemma qmem_trace_inv:
  assumes "qmem_inv s live" and "HardReclaim \<notin> set ops"
    and "(s', live') \<in> set (qmem_trace ops (s, live))"
  shows "qmem_inv s' live'"
  using assms
proof (induction ops arbitrary: s live)
  case Nil
  then show ?case by simp
next
  case (Cons x ops)
  show ?case
  proof (cases "qmem_step x (s, live)")
    case (Inl e)
    with Cons.prems(3) show ?thesis by simp
  next
    case (Inr h)
    obtain s1 live1 where h: "h = (s1, live1)" by (cases h)
    from Cons.prems(2) have x: "x \<noteq> HardReclaim" and ops: "HardReclaim \<notin> set ops" by auto
    from Inr h have step: "qmem_step x (s, live) = Inr (s1, live1)" by simp
    have inv1: "qmem_inv s1 live1" by (rule qmem_step_inv [OF Cons.prems(1) x step])
    from Cons.prems(3) step have "(s', live') = (s1, live1) \<or> (s', live') \<in> set (qmem_trace ops (s1, live1))"
      by simp
    then show ?thesis
    proof
      assume "(s', live') = (s1, live1)"
      with inv1 show ?thesis by simp
    next
      assume "(s', live') \<in> set (qmem_trace ops (s1, live1))"
      with Cons.IH [OF inv1 ops] show ?thesis by simp
    qed
  qed
qed

subsection \<open>The accounting invariant\<close>

lemma qmem_zero_torn_down: "qmem_torn_down (qmem_zero h)"
  by (simp add: qmem_torn_down_def qmem_zero_def)

lemma foldl_sys_free_heap_next:
  "heap_next (foldl (\<lambda>t i. sys_free (pages_size t i) t) s is) = heap_next s"
  by (induction "is" arbitrary: s) (simp_all add: sys_free_def)

lemma qmem_clear_torn_down:
  assumes "qmem_clear s = Inr s'" and "static_pages_n \<le> heap_next s"
  shows "qmem_torn_down s'"
proof -
  let ?t = "foldl (\<lambda>t i. sys_free (pages_size t i) t) (s\<lparr>left := [], used_mem := 0\<rparr>)
              [static_pages_n..<pages_n s]"
  have inv: "left (foldl (\<lambda>t i. sys_free (pages_size t i) t) t0 is) = left t0
      \<and> used_mem (foldl (\<lambda>t i. sys_free (pages_size t i) t) t0 is) = used_mem t0" for t0 "is"
    by (induction "is" arbitrary: t0) (simp_all add: sys_free_def)
  from assms(1) have "s' = ?t\<lparr>state := st_empty, qmem_generation := qmem_generation ?t + 1\<rparr>"
    by (auto simp: qmem_clear_def Let_def incr_generation_def split: if_splits)
  then show ?thesis
    using assms(2) inv [of "s\<lparr>left := [], used_mem := 0\<rparr>" "[static_pages_n..<pages_n s]"]
    by (simp add: qmem_torn_down_def foldl_sys_free_heap_next)
qed

text \<open>
  C1. Take a pool that is torn down (the state before the first \<^verbatim>\<open>qmem_init\<close>, or the
  state \<^verbatim>\<open>qmem_clear\<close> leaves), call \<^verbatim>\<open>qmem_init\<close> and then any sequence of \<^verbatim>\<open>qmem_init\<close>,
  \<^verbatim>\<open>qmem_malloc\<close>, \<^verbatim>\<open>qmem_malloc0\<close>, \<^verbatim>\<open>qmem_malloc_tmp\<close> and \<^verbatim>\<open>qmem_free_ptrs\<close>. After every
  call that returns, the used bytes and the sizes of the free blocks add up to the sizes
  of all pages, static and dynamic, and no two live blocks overlap; neither does a live
  block overlap a free one, nor two free blocks each other. (A call that aborts, such as
  a second \<^verbatim>\<open>qmem_init\<close> or an allocation beyond the ceilings, ends the sequence.)
\<close>

theorem qmem_accounting_invariant:
  assumes "qmem_torn_down s0" and "HardReclaim \<notin> set ops"
    and "(s, live) \<in> set (qmem_trace (Init # ops) (s0, []))"
  shows "used_mem s + free_bytes s = total_reserved_bytes s
         \<and> no_overlap live \<and> no_overlap (free_blocks s @ live)"
proof -
  from assms(1) have "state s0 = st_empty" "left s0 = []" by (simp_all add: qmem_torn_down_def)
  then obtain s1 where init: "qmem_init s0 = Inr s1" by (simp add: qmem_init_Inr)
  have inv1: "qmem_inv s1 []" by (rule qmem_init_inv [OF assms(1) init])
  from assms(3) init have "(s, live) = (s1, []) \<or> (s, live) \<in> set (qmem_trace ops (s1, []))"
    by simp
  then have inv: "qmem_inv s live"
  proof
    assume "(s, live) = (s1, [])"
    with inv1 show ?thesis by simp
  next
    assume "(s, live) \<in> set (qmem_trace ops (s1, []))"
    with qmem_trace_inv [OF inv1 assms(2)] show ?thesis by simp
  qed
  then have "used_mem s + free_bytes s = total_reserved_bytes s"
    and "disjoint_blocks (mset (free_blocks s @ live))"
    by (simp_all add: qmem_inv_def)
  with qmem_inv_no_overlap [OF inv] show ?thesis by (simp add: no_overlap_iff_disjoint)
qed

subsection \<open>The non-committing allocation\<close>

text \<open>
  C9. When no free block has at least \<open>n\<close> bytes, a \<^verbatim>\<open>qmem_malloc_tmp(n)\<close> that returns
  has opened a page of \<open>max n page_size\<close> bytes, returns its address and has registered
  the whole page as a free block: the page count and the index have changed. When some
  free block has at least \<open>n\<close> bytes, the call returns the address of such a block and
  the pool is as it was.
\<close>

theorem qmem_malloc_tmp_effect:
  "((\<forall>e\<in>set (left s). fst e < n) \<longrightarrow>
      (\<forall>p s'. qmem_malloc_tmp n s = Inr (p, s') \<longrightarrow>
         pages_n s' = pages_n s + 1 \<and> pages s' (pages_n s) = p
         \<and> pages_size s' (pages_n s) = max n page_size
         \<and> left s' = multimap_insert (max n page_size) p (left s) \<and> s' \<noteq> s))
   \<and> (\<not> (\<forall>e\<in>set (left s). fst e < n) \<longrightarrow>
      (\<exists>e\<in>set (left s). n \<le> fst e \<and> qmem_malloc_tmp n s = Inr (snd e, s)))"
proof (rule conjI)
  show "(\<forall>e\<in>set (left s). fst e < n) \<longrightarrow>
      (\<forall>p s'. qmem_malloc_tmp n s = Inr (p, s') \<longrightarrow>
         pages_n s' = pages_n s + 1 \<and> pages s' (pages_n s) = p
         \<and> pages_size s' (pages_n s) = max n page_size
         \<and> left s' = multimap_insert (max n page_size) p (left s) \<and> s' \<noteq> s)"
  proof (intro impI allI)
    fix p s'
    assume miss: "\<forall>e\<in>set (left s). fst e < n" and r: "qmem_malloc_tmp n s = Inr (p, s')"
    from miss have "lower_bound n (left s) = length (left s)" by (simp add: lower_bound_miss_iff)
    with r have alloc: "alloc_at_least n 0 s = Inr (p, s')" by (simp add: qmem_malloc_tmp_miss)
    note a = alloc_at_least_Inr [OF alloc]
    have pos: "0 < max n page_size" by (simp add: page_size_def max_def)
    have "pages_n s' = pages_n s + 1" by (simp add: a(5))
    then have "s' \<noteq> s" by auto
    then show "pages_n s' = pages_n s + 1 \<and> pages s' (pages_n s) = p
           \<and> pages_size s' (pages_n s) = max n page_size
           \<and> left s' = multimap_insert (max n page_size) p (left s) \<and> s' \<noteq> s"
      using pos by (simp add: a(5) a(4))
  qed
  show "\<not> (\<forall>e\<in>set (left s). fst e < n) \<longrightarrow>
      (\<exists>e\<in>set (left s). n \<le> fst e \<and> qmem_malloc_tmp n s = Inr (snd e, s))"
  proof
    assume "\<not> (\<forall>e\<in>set (left s). fst e < n)"
    then have hit: "lower_bound n (left s) \<noteq> length (left s)" by (simp add: lower_bound_miss_iff)
    let ?e = "left s ! lower_bound n (left s)"
    from hit have "lower_bound n (left s) < length (left s)"
      using lower_bound_le [of n "left s"] by simp
    then have "?e \<in> set (left s)" by simp
    moreover have "n \<le> fst ?e" by (rule lower_bound_hit [OF hit])
    moreover have "qmem_malloc_tmp n s = Inr (snd ?e, s)" by (rule qmem_malloc_tmp_hit [OF hit])
    ultimately show "\<exists>e\<in>set (left s). n \<le> fst e \<and> qmem_malloc_tmp n s = Inr (snd e, s)"
      by blast
  qed
qed

subsection \<open>The generation counter\<close>

lemma foldl_sys_free_generation:
  "qmem_generation (foldl (\<lambda>t i. sys_free (pages_size t i) t) s is) = qmem_generation s"
  by (induction "is" arbitrary: s) (simp_all add: sys_free_def)

lemma qmem_free_ptrs_generation:
  "qmem_free_ptrs s = Inr s' \<Longrightarrow> qmem_generation s' = qmem_generation s + 1"
  by (cases "reclaims s")
    (auto simp: qmem_free_ptrs_def Let_def foldl_reg incr_generation_def split: if_splits)

lemma qmem_clear_generation:
  "qmem_clear s = Inr s' \<Longrightarrow> qmem_generation s' = qmem_generation s + 1"
  by (auto simp: qmem_clear_def Let_def incr_generation_def foldl_sys_free_generation
      split: if_splits)

lemma qmem_init_generation:
  assumes "qmem_init s = Inr s'"
  shows "qmem_generation s' = qmem_generation s"
proof -
  from assms have e: "state s = st_empty" "left s = []"
    by (auto simp: qmem_init_def split: if_splits)
  from assms show ?thesis unfolding qmem_init_Inr [OF e] by auto
qed

lemma alloc_at_least_generation:
  "alloc_at_least n use s = Inr (p, s') \<Longrightarrow> qmem_generation s' = qmem_generation s"
  by (drule alloc_at_least_Inr(5)) simp

lemma qmem_malloc_generation:
  "qmem_malloc n s = Inr (p, s') \<Longrightarrow> qmem_generation s' = qmem_generation s"
  by (cases "lower_bound n (left s) = length (left s)")
    (auto simp: qmem_malloc_miss qmem_malloc_hit dest: alloc_at_least_generation)

lemma qmem_malloc_tmp_generation:
  "qmem_malloc_tmp n s = Inr (p, s') \<Longrightarrow> qmem_generation s' = qmem_generation s"
  by (cases "lower_bound n (left s) = length (left s)")
    (auto simp: qmem_malloc_tmp_miss qmem_malloc_tmp_hit dest: alloc_at_least_generation)

lemma qmem_step_generation:
  assumes "qmem_step x (s, live) = Inr (s', live')"
  shows "qmem_generation s \<le> qmem_generation s'"
    and "x = SoftReclaim \<or> x = HardReclaim \<Longrightarrow> qmem_generation s' = qmem_generation s + 1"
  using assms
  by (cases x; auto simp: qmem_malloc0_def split: sum.splits
      dest: qmem_init_generation qmem_malloc_generation qmem_malloc_tmp_generation
        qmem_free_ptrs_generation qmem_clear_generation)+

lemma qmem_exec_generation:
  "qmem_exec ops h = Inr h' \<Longrightarrow> qmem_generation (fst h) \<le> qmem_generation (fst h')"
proof (induction ops arbitrary: h)
  case Nil
  then show ?case by simp
next
  case (Cons x ops)
  from Cons.prems obtain h1 where step: "qmem_step x h = Inr h1" and rest: "qmem_exec ops h1 = Inr h'"
    by (auto split: sum.splits)
  from step have "qmem_generation (fst h) \<le> qmem_generation (fst h1)"
    using qmem_step_generation(1) [of x "fst h" "snd h" "fst h1" "snd h1"] by simp
  with Cons.IH [OF rest] show ?case by simp
qed

lemma qmem_exec_append:
  "qmem_exec (xs @ ys) h = (case qmem_exec xs h of Inl e \<Rightarrow> Inl e | Inr h' \<Rightarrow> qmem_exec ys h')"
  by (induction xs arbitrary: h) (auto split: sum.splits)

subsection \<open>Concrete runs\<close>

lemma qmem_init_zero:
  "qmem_init (qmem_zero 100000000) =
    Inr \<lparr>pages = (\<lambda>i. (0, 0))(0 := (0, 0), 1 := (1, 0)),
         pages_size = (\<lambda>i. 0)(0 := 4194304, 1 := 4194304),
         cur_mem = 8388608, used_mem = 0, pages_n = 2, state = st_inited,
         left = [(4194304, (0, 0)), (4194304, (1, 0))], qmem_generation = 0,
         heap_next = 2, heap_avail = 100000000\<rparr>"
  by (simp add: qmem_zero_def qmem_init_Inr page_size_def static_pages_n_def)

lemmas qmem_eval =
  qmem_malloc_def qmem_malloc0_def qmem_malloc_tmp_def lower_bound_def multimap_erase_def
  size_t_add_def Let_def reg_def ptr_add_def alloc_at_least_def page_size_def max_pages_n_def
  max_mem_def sys_malloc_def qmem_free_ptrs_def reclaims_def incr_generation_def
  free_bytes_def total_reserved_sum_list

theorem qmem_accounting_invariant_witness:
  "qmem_torn_down (qmem_zero 100000000)
   \<and> HardReclaim \<notin> set [Allocate 100, AllocatePeek 5000000, Allocate 10, ZeroAllocate 5000000,
                          SoftReclaim, Allocate 7]
   \<and> map (\<lambda>h. (used_mem (fst h), free_bytes (fst h), total_reserved_bytes (fst h), snd h))
        (qmem_trace (Init # [Allocate 100, AllocatePeek 5000000, Allocate 10, ZeroAllocate 5000000,
                            SoftReclaim, Allocate 7]) (qmem_zero 100000000, []))
      = [(0, 8388608, 8388608, []),
         (100, 8388508, 8388608, [((0, 0), 100)]),
         (100, 13388508, 13388608, [((0, 0), 100)]),
         (110, 13388498, 13388608, [((0, 100), 10), ((0, 0), 100)]),
         (5000110, 8388498, 13388608, [((2, 0), 5000000), ((0, 100), 10), ((0, 0), 100)]),
         (0, 13388608, 13388608, []),
         (7, 13388601, 13388608, [((0, 0), 7)])]
   \<and> list_all (\<lambda>h. used_mem (fst h) + free_bytes (fst h) = total_reserved_bytes (fst h)
                      \<and> no_overlap (snd h))
        (qmem_trace (Init # [Allocate 100, AllocatePeek 5000000, Allocate 10,
                            ZeroAllocate 5000000, SoftReclaim, Allocate 7])
           (qmem_zero 100000000, []))"
proof -
  let ?ops = "[Allocate 100, AllocatePeek 5000000, Allocate 10, ZeroAllocate 5000000,
               SoftReclaim, Allocate 7]"
  let ?T = "qmem_trace (Init # ?ops) (qmem_zero 100000000, [])"
  have td: "qmem_torn_down (qmem_zero 100000000)"
    by (simp add: qmem_torn_down_def qmem_zero_def)
  have nh: "HardReclaim \<notin> set ?ops" by simp
  have inv: "used_mem (fst h) + free_bytes (fst h) = total_reserved_bytes (fst h)
             \<and> no_overlap (snd h)" if "h \<in> set ?T" for h
  proof -
    from that have "(fst h, snd h) \<in> set ?T" by simp
    from qmem_accounting_invariant [OF td nh this] show ?thesis by simp
  qed
  have tr: "map (\<lambda>h. (used_mem (fst h), free_bytes (fst h), total_reserved_bytes (fst h), snd h)) ?T
      = [(0, 8388608, 8388608, []),
         (100, 8388508, 8388608, [((0, 0), 100)]),
         (100, 13388508, 13388608, [((0, 0), 100)]),
         (110, 13388498, 13388608, [((0, 100), 10), ((0, 0), 100)]),
         (5000110, 8388498, 13388608, [((2, 0), 5000000), ((0, 100), 10), ((0, 0), 100)]),
         (0, 13388608, 13388608, []),
         (7, 13388601, 13388608, [((0, 0), 7)])]"
  proof -
    have "[0..<Suc (Suc (Suc 0))] = [0, Suc 0, Suc (Suc 0)]" by simp
    then have upt3: "[0..<3] = [0, 1, 2 :: nat]" by (simp add: numeral_3_eq_3 numeral_2_eq_2)
    have "[0..<Suc (Suc 0)] = [0, Suc 0]" by simp
    then have upt2: "[0..<2] = [0, 1 :: nat]" by (simp add: numeral_2_eq_2)
    show ?thesis by (simp add: qmem_init_zero qmem_eval upt2 upt3)
  qed
  from inv have "list_all (\<lambda>h. used_mem (fst h) + free_bytes (fst h) = total_reserved_bytes (fst h)
                      \<and> no_overlap (snd h)) ?T"
    unfolding list_all_iff by blast
  with td nh tr show ?thesis by blast
qed

theorem qmem_malloc_tmp_effect_witness:
  "list_all (\<lambda>e. fst e < (5000000 :: nat)) [(4194304, (0, 0)), (4194304, (1, 0 :: nat))]
   \<and> (\<exists>s'. qmem_malloc_tmp 5000000
          \<lparr>pages = (\<lambda>i. (i, 0)), pages_size = (\<lambda>i. 4194304),
           cur_mem = 8388608, used_mem = 0, pages_n = 2, state = st_inited,
           left = [(4194304, (0, 0)), (4194304, (1, 0))], qmem_generation = 0,
           heap_next = 2, heap_avail = 100000000\<rparr> = Inr ((2, 0), s')
        \<and> pages_n s' = 3 \<and> pages_size s' 2 = 5000000
        \<and> left s' = [(4194304, (0, 0)), (4194304, (1, 0)), (5000000, (2, 0))])
   \<and> \<not> (\<forall>e\<in>set [(4194304, (0, 0)), (4194304, (1, 0 :: nat))]. fst e < (100 :: nat))
   \<and> (\<exists>p. qmem_malloc_tmp 100
          \<lparr>pages = (\<lambda>i. (i, 0)), pages_size = (\<lambda>i. 4194304),
           cur_mem = 8388608, used_mem = 0, pages_n = 2, state = st_inited,
           left = [(4194304, (0, 0)), (4194304, (1, 0))], qmem_generation = 0,
           heap_next = 2, heap_avail = 100000000\<rparr>
        = Inr (p, \<lparr>pages = (\<lambda>i. (i, 0)), pages_size = (\<lambda>i. 4194304),
           cur_mem = 8388608, used_mem = 0, pages_n = 2, state = st_inited,
           left = [(4194304, (0, 0)), (4194304, (1, 0))], qmem_generation = 0,
           heap_next = 2, heap_avail = 100000000\<rparr>))"
proof -
  let ?S = "\<lparr>pages = (\<lambda>i. (i, 0 :: nat)), pages_size = (\<lambda>i. 4194304),
           cur_mem = 8388608, used_mem = 0, pages_n = 2, state = st_inited,
           left = [(4194304, (0, 0)), (4194304, (1, 0))], qmem_generation = 0,
           heap_next = 2, heap_avail = 100000000\<rparr>"
  have miss: "\<forall>e\<in>set (left ?S). fst e < (5000000 :: nat)" by simp
  have hit: "\<not> (\<forall>e\<in>set (left ?S). fst e < (100 :: nat))" by simp
  obtain s' where r: "qmem_malloc_tmp 5000000 ?S = Inr ((2, 0), s')"
    by (simp add: qmem_eval)
  from qmem_malloc_tmp_effect [of ?S 5000000] miss r
  have "pages_n s' = pages_n ?S + 1 \<and> pages_size s' (pages_n ?S) = max 5000000 page_size
        \<and> left s' = multimap_insert (max 5000000 page_size) (2, 0) (left ?S)"
    by blast
  then have m: "pages_n s' = 3 \<and> pages_size s' 2 = 5000000
        \<and> left s' = [(4194304, (0, 0)), (4194304, (1, 0)), (5000000, (2, 0))]"
    by (simp add: page_size_def)
  with r have A: "\<exists>s'. qmem_malloc_tmp 5000000 ?S = Inr ((2, 0), s') \<and> pages_n s' = 3
        \<and> pages_size s' 2 = 5000000
        \<and> left s' = [(4194304, (0, 0)), (4194304, (1, 0)), (5000000, (2, 0))]"
    by blast
  from qmem_malloc_tmp_effect [of ?S 100] hit
  have B: "\<exists>p. qmem_malloc_tmp 100 ?S = Inr (p, ?S)" by blast
  from miss hit have C: "list_all (\<lambda>e. fst e < (5000000 :: nat)) [(4194304, (0, 0)), (4194304, (1, 0 :: nat))]"
    and D: "\<not> (\<forall>e\<in>set [(4194304, (0, 0)), (4194304, (1, 0 :: nat))]. fst e < (100 :: nat))"
    by simp_all
  from A B C D show ?thesis by (intro conjI)
qed

section \<open>Properties of the slot registry\<close>

lemma init_slots_window:
  "begin_slot_id (init_slots r) = end_slot_id (init_slots r) \<and> 1 \<le> begin_slot_id (init_slots r)"
  by (simp add: init_slots_def Let_def max_slot_id_def)

lemma slot_inv_start: "slot_inv (slot_start r)"
  using init_slots_window [of r] by (simp add: slot_inv_def slot_start_def)

lemma slot_inv_step: "slot_inv h \<Longrightarrow> slot_inv (slot_step h x)"
proof (cases x)
  case CreateSlot
  assume "slot_inv h"
  then show ?thesis
    using CreateSlot by (auto simp: slot_inv_def create_slot_def max_slot_id_def)
next
  case (ClearSlots r)
  assume "slot_inv h"
  then show ?thesis
    using ClearSlots init_slots_window [of r]
    by (auto simp: slot_inv_def clear_slots_def Let_def)
qed

lemma slot_inv_run: "slot_inv h \<Longrightarrow> slot_inv (slot_run ops h)"
  unfolding slot_run_def
  by (induction ops arbitrary: h) (simp_all add: slot_inv_step)

lemma slot_run_append: "slot_run (xs @ ys) h = slot_run ys (slot_run xs h)"
  by (simp add: slot_run_def)

lemma slot_run_Cons: "slot_run (x # xs) h = slot_run xs (slot_step h x)"
  by (simp add: slot_run_def)

lemma slot_run_Nil: "slot_run [] h = h"
  by (simp add: slot_run_def)

text \<open>\<open>n\<close> calls of \<^verbatim>\<open>create_slot\<close> in a row, while the window has room for them.\<close>

lemma slot_run_creates:
  "0 \<le> end_slot_id (sh_slots h) \<Longrightarrow> end_slot_id (sh_slots h) + int n \<le> max_slot_id + 1 \<Longrightarrow>
   slot_run (replicate n CreateSlot) h =
     h\<lparr>sh_slots := (sh_slots h)\<lparr>end_slot_id := end_slot_id (sh_slots h) + int n\<rparr>,
       sh_issued := sh_issued h @ map (\<lambda>i. end_slot_id (sh_slots h) + int i) [0..<n]\<rparr>"
proof (induction n arbitrary: h)
  case 0
  then show ?case by (simp add: slot_run_Nil)
next
  case (Suc n)
  let ?e = "end_slot_id (sh_slots h)"
  define h1 where "h1 = slot_step h CreateSlot"
  from Suc.prems have room: "\<not> ?e > max_slot_id" and nn: "?e \<noteq> - 1" by simp_all
  then have h1: "h1 = h\<lparr>sh_slots := (sh_slots h)\<lparr>end_slot_id := ?e + 1\<rparr>,
                        sh_issued := sh_issued h @ [?e]\<rparr>"
    by (simp add: h1_def create_slot_def)
  have "0 \<le> end_slot_id (sh_slots h1)" "end_slot_id (sh_slots h1) + int n \<le> max_slot_id + 1"
    using Suc.prems by (simp_all add: h1)
  from Suc.IH [OF this]
  have "slot_run (replicate n CreateSlot) h1 =
          h\<lparr>sh_slots := (sh_slots h)\<lparr>end_slot_id := ?e + 1 + int n\<rparr>,
            sh_issued := sh_issued h @ [?e] @ map (\<lambda>i. ?e + 1 + int i) [0..<n]\<rparr>"
    by (simp add: h1)
  moreover have "[?e] @ map (\<lambda>i. ?e + 1 + int i) [0..<n] = map (\<lambda>i. ?e + int i) [0..<Suc n]"
    by (simp add: map_upt_Suc del: upt_Suc)
  moreover have "?e + 1 + int n = ?e + int (Suc n)" by simp
  ultimately show ?case
    by (simp only: replicate_Suc slot_run_Cons h1_def [symmetric])
qed

text \<open>
  C7, as the code has it. After any run of \<^verbatim>\<open>create_slot\<close> and \<^verbatim>\<open>clear_slots\<close> calls that
  follows \<^verbatim>\<open>init_slots\<close>, an id is valid if and only if \<^verbatim>\<open>create_slot\<close> returned it after
  the most recent \<^verbatim>\<open>clear_slots\<close>. Nothing is said about ids handed out earlier: a
  \<^verbatim>\<open>clear_slots\<close> that reseeds the window lets \<^verbatim>\<open>create_slot\<close> hand them out again.
\<close>

theorem is_valid_slot_iff_issued:
  "is_valid_slot (sh_slots (slot_run ops (slot_start r))) s
   = (s \<in> set (sh_issued (slot_run ops (slot_start r))))"
  using slot_inv_run [OF slot_inv_start, of ops r]
  by (auto simp: slot_inv_def is_valid_slot_def)

theorem is_valid_slot_iff_issued_witness:
  "is_valid_slot (sh_slots (slot_run [CreateSlot, ClearSlots 5, CreateSlot, CreateSlot] (slot_start 41))) 43
   \<and> sh_issued (slot_run [CreateSlot, ClearSlots 5, CreateSlot, CreateSlot] (slot_start 41)) = [43, 44]
   \<and> \<not> is_valid_slot (sh_slots (slot_run [CreateSlot, ClearSlots 5, CreateSlot, CreateSlot] (slot_start 41))) 42"
proof -
  let ?h = "slot_run [CreateSlot, ClearSlots 5, CreateSlot, CreateSlot] (slot_start 41)"
  have i: "sh_issued ?h = [43, 44]"
    by (simp add: slot_run_def slot_start_def init_slots_def create_slot_def clear_slots_def
        max_slot_id_def Let_def)
  from is_valid_slot_iff_issued [of "[CreateSlot, ClearSlots 5, CreateSlot, CreateSlot]" 41 43]
    is_valid_slot_iff_issued [of "[CreateSlot, ClearSlots 5, CreateSlot, CreateSlot]" 41 42]
  show ?thesis by (simp add: i)
qed

text \<open>
  C7, as the claim states it, fails. From \<^verbatim>\<open>init_slots\<close> with the window at 1, hand out
  500000001 ids (the first of them is 1), call \<^verbatim>\<open>clear_slots\<close>, which reseeds the window
  to 1 again, and call \<^verbatim>\<open>create_slot\<close> once more: the id 1 was handed out before the
  invalidation and tests valid after it.
\<close>

theorem is_valid_slot_reissued_counterexample:
  "1 \<in> set (sh_earlier (slot_run (replicate 500000001 CreateSlot @ [ClearSlots 0, CreateSlot])
                          (slot_start 0)))
   \<and> is_valid_slot (sh_slots (slot_run (replicate 500000001 CreateSlot @ [ClearSlots 0, CreateSlot])
                          (slot_start 0))) 1"
proof -
  define n :: nat where "n = 500000001"
  have n: "int n = 500000001" "0 < n" by (simp_all add: n_def)
  let ?h0 = "slot_start 0"
  have h0: "?h0 = \<lparr>sh_slots = \<lparr>begin_slot_id = 1, end_slot_id = 1\<rparr>, sh_issued = [], sh_earlier = []\<rparr>"
    by (simp add: slot_start_def init_slots_def max_slot_id_def)
  have "0 \<le> end_slot_id (sh_slots ?h0)" "end_slot_id (sh_slots ?h0) + int n \<le> max_slot_id + 1"
    by (simp_all add: h0 n max_slot_id_def)
  from slot_run_creates [OF this]
  have h1: "slot_run (replicate n CreateSlot) ?h0 =
      \<lparr>sh_slots = \<lparr>begin_slot_id = 1, end_slot_id = 500000002\<rparr>,
       sh_issued = map (\<lambda>i. 1 + int i) [0..<n], sh_earlier = []\<rparr>"
    by (simp add: h0 n)
  have h2: "slot_run (replicate n CreateSlot @ [ClearSlots 0, CreateSlot]) ?h0 =
      \<lparr>sh_slots = \<lparr>begin_slot_id = 1, end_slot_id = 2\<rparr>,
       sh_issued = [1], sh_earlier = map (\<lambda>i. 1 + int i) [0..<n]\<rparr>"
    by (simp add: slot_run_append h1 slot_run_Cons slot_run_Nil clear_slots_def init_slots_def
        create_slot_def max_slot_id_def)
  have "(1::int) \<in> set (map (\<lambda>i. 1 + int i) [0..<n])"
    using n(2) by (auto simp: image_iff intro!: bexI [of _ 0])
  then show ?thesis
    unfolding n_def [symmetric] h2 by (simp add: is_valid_slot_def)
qed

section \<open>Properties of the ring queue\<close>

lemma wrap_succ_mod: "0 \<le> (e::int) \<Longrightarrow> e < N \<Longrightarrow> (if e + 1 = N then 0 else e + 1) = (e + 1) mod N"
  by (auto simp: mod_pos_pos_trivial)

lemma StaticQueue_wf_end: "StaticQueue_wf N s \<Longrightarrow> 0 \<le> sq_end s \<and> sq_end s < N"
  by (auto simp: StaticQueue_wf_def)

lemma StaticQueue_create_full: "sq_cnt s = N \<Longrightarrow> StaticQueue_create N s = (None, s)"
  by (simp add: StaticQueue_create_def)

lemma StaticQueue_pop_empty: "sq_cnt s = 0 \<Longrightarrow> StaticQueue_pop N s = (None, s)"
  by (simp add: StaticQueue_pop_def StaticQueue_empty_def)

lemma StaticQueue_create_some:
  assumes "0 \<le> sq_end s" "sq_end s < N" "sq_cnt s \<noteq> N"
  shows "StaticQueue_create N s =
           (Some (sq_end s), s\<lparr>sq_end := (sq_end s + 1) mod N, sq_cnt := sq_cnt s + 1\<rparr>)"
  using assms by (auto simp: StaticQueue_create_def Let_def mod_pos_pos_trivial)

lemma StaticQueue_pop_some:
  assumes "0 \<le> sq_begin s" "sq_begin s < N" "sq_cnt s \<noteq> 0"
  shows "StaticQueue_pop N s =
           (Some (sq_begin s), s\<lparr>sq_begin := (sq_begin s + 1) mod N, sq_cnt := sq_cnt s - 1\<rparr>)"
  using assms
  by (auto simp: StaticQueue_pop_def StaticQueue_empty_def Let_def mod_pos_pos_trivial)

lemma StaticQueue_wf_clear:
  "0 < N \<Longrightarrow> int (length (sq_q s)) = N \<Longrightarrow> StaticQueue_wf N (StaticQueue_clear s)"
  by (simp add: StaticQueue_wf_def StaticQueue_clear_def)

lemma StaticQueue_pending_clear: "StaticQueue_pending N (StaticQueue_clear s) = []"
  by (simp add: StaticQueue_pending_def StaticQueue_clear_def)

lemma StaticQueue_pending_length:
  "0 \<le> sq_cnt s \<Longrightarrow> int (length (StaticQueue_pending N s)) = sq_cnt s"
  by (simp add: StaticQueue_pending_def)

lemma mod_window_distinct:
  assumes "0 \<le> (b::int)" "0 < N" "int i < c" "c < N"
  shows "(b + int i) mod N \<noteq> (b + c) mod N"
proof
  assume "(b + int i) mod N = (b + c) mod N"
  then have "(c - int i) mod N = 0"
    by (metis add_diff_cancel_left' mod_diff_cong mod_self cancel_comm_monoid_add_class.diff_cancel mod_0)
  moreover have "0 < c - int i" "c - int i < N" using assms by auto
  ultimately show False by (simp add: mod_pos_pos_trivial)
qed

text \<open>Storing into the cell that \<^verbatim>\<open>create\<close> handed out appends to the pending records.\<close>

lemma StaticQueue_pending_create:
  assumes wf: "StaticQueue_wf N s" and nf: "sq_cnt s \<noteq> N"
  shows "StaticQueue_pending N
           (StaticQueue_store (sq_end s) v
              (s\<lparr>sq_end := (sq_end s + 1) mod N, sq_cnt := sq_cnt s + 1\<rparr>))
         = StaticQueue_pending N s @ [v]"
proof -
  let ?b = "sq_begin s" and ?c = "sq_cnt s" and ?e = "sq_end s"
  from wf have len: "int (length (sq_q s)) = N" and b: "0 \<le> ?b" "?b < N"
    and c: "0 \<le> ?c" "?c \<le> N" and e: "?e = (?b + ?c) mod N"
    by (auto simp: StaticQueue_wf_def)
  from c nf have c': "?c < N" by simp
  from b have N: "0 < N" by simp
  have e_bounds: "0 \<le> ?e" "?e < N" using e N by simp_all
  have nat_c: "nat (?c + 1) = Suc (nat ?c)" using c by simp
  have old: "(sq_q s)[nat ?e := v] ! nat ((?b + int i) mod N) = sq_q s ! nat ((?b + int i) mod N)"
    if "i < nat ?c" for i
  proof -
    from that have "int i < ?c" by simp
    then have "(?b + int i) mod N \<noteq> ?e"
      using mod_window_distinct [OF b(1) N _ c'] e by simp
    moreover have "0 \<le> (?b + int i) mod N" using N by (rule pos_mod_sign)
    ultimately have "nat ((?b + int i) mod N) \<noteq> nat ?e"
      using e_bounds(1) by (simp only: eq_nat_nat_iff not_False_eq_True)
    then show ?thesis by simp
  qed
  have new: "(sq_q s)[nat ?e := v] ! nat ((?b + int (nat ?c)) mod N) = v"
  proof -
    have "(?b + int (nat ?c)) mod N = ?e" using c e by simp
    moreover have "nat ?e < length (sq_q s)" using e_bounds len by simp
    ultimately show ?thesis by simp
  qed
  show ?thesis
    unfolding StaticQueue_pending_def StaticQueue_store_def
    using old new by (simp add: nat_c)
qed

lemma StaticQueue_wf_create:
  assumes wf: "StaticQueue_wf N s" and nf: "sq_cnt s \<noteq> N"
  shows "StaticQueue_wf N
           (StaticQueue_store (sq_end s) v
              (s\<lparr>sq_end := (sq_end s + 1) mod N, sq_cnt := sq_cnt s + 1\<rparr>))"
  using assms
  by (auto simp: StaticQueue_wf_def StaticQueue_store_def mod_simps algebra_simps)

lemma StaticQueue_pending_pop:
  assumes wf: "StaticQueue_wf N s" and ne: "sq_cnt s \<noteq> 0"
  shows "StaticQueue_pending N s =
           sq_q s ! nat (sq_begin s)
           # StaticQueue_pending N (s\<lparr>sq_begin := (sq_begin s + 1) mod N, sq_cnt := sq_cnt s - 1\<rparr>)"
proof -
  let ?b = "sq_begin s" and ?c = "sq_cnt s"
  from wf have b: "0 \<le> ?b" "?b < N" and c: "0 \<le> ?c" by (auto simp: StaticQueue_wf_def)
  from c ne have "nat ?c = Suc (nat (?c - 1))" by simp
  then have upt: "[0..<nat ?c] = 0 # map Suc [0..<nat (?c - 1)]"
    by (metis map_Suc_upt upt_conv_Cons zero_less_Suc)
  have shift: "((?b + 1) mod N + int i) mod N = (?b + int (Suc i)) mod N" for i
    by (simp add: mod_simps algebra_simps)
  show ?thesis
    unfolding StaticQueue_pending_def upt
    using b by (simp add: shift mod_pos_pos_trivial del: upt_Suc)
qed

lemma StaticQueue_wf_pop:
  assumes wf: "StaticQueue_wf N s" and ne: "sq_cnt s \<noteq> 0"
  shows "StaticQueue_wf N (s\<lparr>sq_begin := (sq_begin s + 1) mod N, sq_cnt := sq_cnt s - 1\<rparr>)"
proof -
  have "((sq_begin s + 1) mod N + (sq_cnt s - 1)) mod N = (sq_begin s + 1 + (sq_cnt s - 1)) mod N"
    by (rule mod_add_left_eq)
  then have "((sq_begin s + 1) mod N + (sq_cnt s - 1)) mod N = (sq_begin s + sq_cnt s) mod N"
    by simp
  then show ?thesis using assms by (auto simp: StaticQueue_wf_def)
qed

text \<open>One step of the code is one step of the specification's queue.\<close>

lemma StaticQueue_step_refines:
  assumes wf: "StaticQueue_wf N s" and step: "StaticQueue_step N x s = (out, s')"
  shows "fifo_spec_step N x (StaticQueue_pending N s) = (out, StaticQueue_pending N s')
         \<and> StaticQueue_wf N s'"
proof (cases x)
  case (Create v)
  from wf have c: "0 \<le> sq_cnt s" by (simp add: StaticQueue_wf_def)
  show ?thesis
  proof (cases "sq_cnt s = N")
    case True
    then show ?thesis
      using step wf Create c
      by (simp add: StaticQueue_create_full StaticQueue_pending_length)
  next
    case False
    have cr: "StaticQueue_create N s =
           (Some (sq_end s), s\<lparr>sq_end := (sq_end s + 1) mod N, sq_cnt := sq_cnt s + 1\<rparr>)"
      using StaticQueue_create_some StaticQueue_wf_end [OF wf] False by blast
    from False c have "int (length (StaticQueue_pending N s)) \<noteq> N"
      by (simp add: StaticQueue_pending_length)
    then show ?thesis
      using step Create cr StaticQueue_pending_create [OF wf False] StaticQueue_wf_create [OF wf False]
      by auto
  qed
next
  case Pop
  show ?thesis
  proof (cases "sq_cnt s = 0")
    case True
    then have "StaticQueue_pending N s = []" by (simp add: StaticQueue_pending_def)
    then show ?thesis using step wf Pop True by (simp add: StaticQueue_pop_empty)
  next
    case False
    from wf have b: "0 \<le> sq_begin s" "sq_begin s < N" by (auto simp: StaticQueue_wf_def)
    have pp: "StaticQueue_pop N s =
           (Some (sq_begin s), s\<lparr>sq_begin := (sq_begin s + 1) mod N, sq_cnt := sq_cnt s - 1\<rparr>)"
      using StaticQueue_pop_some b False by blast
    show ?thesis
      using step Pop pp StaticQueue_pending_pop [OF wf False] StaticQueue_wf_pop [OF wf False]
      by auto
  qed
qed

lemma StaticQueue_run_refines:
  "StaticQueue_wf N s \<Longrightarrow> StaticQueue_run N ops s = fifo_spec_run N ops (StaticQueue_pending N s)"
proof (induction ops arbitrary: s)
  case Nil
  then show ?case by simp
next
  case (Cons x ops)
  obtain out s' where step: "StaticQueue_step N x s = (out, s')"
    by (cases "StaticQueue_step N x s")
  from StaticQueue_step_refines [OF Cons.prems step] Cons.IH [of s'] step
  show ?case by simp
qed

text \<open>
  C5. On a queue of capacity \<open>N\<close> that starts empty, every run of \<^verbatim>\<open>create\<close> and \<^verbatim>\<open>pop\<close>
  answers as the FIFO of the specification does: \<^verbatim>\<open>pop\<close> hands the records out in the order
  of their creation and answers an empty queue with nothing, and \<^verbatim>\<open>create\<close> is refused
  exactly when \<open>N\<close> created records are un-popped. The refused \<^verbatim>\<open>create\<close> and the \<^verbatim>\<open>pop\<close>
  on an empty queue return the queue as it was.
\<close>

theorem StaticQueue_fifo:
  assumes "0 < N" and "int (length (sq_q s0)) = N"
  shows "StaticQueue_run N ops (StaticQueue_clear s0) = fifo_spec_run N ops []
         \<and> (\<forall>s. sq_cnt s = N \<longrightarrow> StaticQueue_create N s = (None, (s :: 'a StaticQueue)))
         \<and> (\<forall>s. sq_cnt s = 0 \<longrightarrow> StaticQueue_pop N s = (None, (s :: 'a StaticQueue)))"
  using StaticQueue_run_refines [OF StaticQueue_wf_clear [OF assms], of ops]
  by (simp add: StaticQueue_pending_clear StaticQueue_create_full StaticQueue_pop_empty)

theorem StaticQueue_fifo_witness:
  "(0::int) < 2 \<and> int (length (sq_q \<lparr>sq_q = [0, 0 :: nat], sq_begin = 0, sq_end = 0, sq_cnt = 0\<rparr>)) = 2
   \<and> StaticQueue_run 2 [Create 7, Create 8, Create 9, Pop, Create 10, Pop, Pop, Pop]
        (StaticQueue_clear \<lparr>sq_q = [0, 0 :: nat], sq_begin = 0, sq_end = 0, sq_cnt = 0\<rparr>)
      = [Created, Created, QueueFull, Popped 7, Created, Popped 8, Popped 10, QueueEmpty]"
proof -
  let ?s0 = "\<lparr>sq_q = [0, 0 :: nat], sq_begin = 0, sq_end = 0, sq_cnt = 0\<rparr>"
  let ?ops = "[Create 7, Create 8, Create 9, Pop, Create 10, Pop, Pop, Pop] :: nat queue_op list"
  have h: "(0::int) < 2" "int (length (sq_q ?s0)) = 2" by simp_all
  from StaticQueue_fifo [OF h, of ?ops]
  have "StaticQueue_run 2 ?ops (StaticQueue_clear ?s0) = fifo_spec_run 2 ?ops []" by blast
  also have "\<dots> = [Created, Created, QueueFull, Popped 7, Created, Popped 8, Popped 10, QueueEmpty]"
    by simp
  finally show ?thesis using h by blast
qed

text \<open>
  C6. \<^verbatim>\<open>undo_create\<close> on the record that the preceding \<^verbatim>\<open>create\<close> returned gives back the
  queue as it was before that \<^verbatim>\<open>create\<close>, also when \<^verbatim>\<open>create\<close> moved the end index from
  \<open>N - 1\<close> around to \<open>0\<close>.
\<close>

theorem StaticQueue_undo_create_restores:
  assumes "0 \<le> sq_end s" and "sq_end s < N" and "StaticQueue_create N s = (Some h, s')"
  shows "StaticQueue_undo_create N h s' = Inr s"
  using assms
  by (auto simp: StaticQueue_create_def StaticQueue_undo_create_def Let_def split: if_splits)

theorem StaticQueue_undo_create_restores_witness:
  "(0::int) \<le> sq_end \<lparr>sq_q = [1, 2, 3 :: nat], sq_begin = 1, sq_end = 2, sq_cnt = 1\<rparr>
   \<and> sq_end \<lparr>sq_q = [1, 2, 3 :: nat], sq_begin = 1, sq_end = 2, sq_cnt = 1\<rparr> < 3
   \<and> StaticQueue_create 3 \<lparr>sq_q = [1, 2, 3 :: nat], sq_begin = 1, sq_end = 2, sq_cnt = 1\<rparr>
       = (Some 2, \<lparr>sq_q = [1, 2, 3], sq_begin = 1, sq_end = 0, sq_cnt = 2\<rparr>)
   \<and> StaticQueue_undo_create 3 2 \<lparr>sq_q = [1, 2, 3 :: nat], sq_begin = 1, sq_end = 0, sq_cnt = 2\<rparr>
       = Inr \<lparr>sq_q = [1, 2, 3], sq_begin = 1, sq_end = 2, sq_cnt = 1\<rparr>"
proof -
  have c: "StaticQueue_create 3 \<lparr>sq_q = [1, 2, 3 :: nat], sq_begin = 1, sq_end = 2, sq_cnt = 1\<rparr>
       = (Some 2, \<lparr>sq_q = [1, 2, 3], sq_begin = 1, sq_end = 0, sq_cnt = 2\<rparr>)"
    by (simp add: StaticQueue_create_def)
  from StaticQueue_undo_create_restores [OF _ _ c] c show ?thesis by simp
qed

section \<open>Properties of net events\<close>

text \<open>A store into the free cell at \<open>sq_end\<close> does not touch a pending record.\<close>

lemma StaticQueue_pending_store_end:
  assumes wf: "StaticQueue_wf N s" and nf: "sq_cnt s \<noteq> N"
  shows "StaticQueue_pending N (s\<lparr>sq_q := (sq_q s)[nat (sq_end s) := v]\<rparr>) = StaticQueue_pending N s"
proof -
  let ?b = "sq_begin s" and ?c = "sq_cnt s" and ?e = "sq_end s"
  from wf have b: "0 \<le> ?b" "?b < N" and c: "0 \<le> ?c" "?c \<le> N" and e: "?e = (?b + ?c) mod N"
    by (auto simp: StaticQueue_wf_def)
  from c nf have c': "?c < N" by simp
  from b have N: "0 < N" by simp
  have e0: "0 \<le> ?e" using e N by simp
  have "(sq_q s)[nat ?e := v] ! nat ((?b + int i) mod N) = sq_q s ! nat ((?b + int i) mod N)"
    if "i < nat ?c" for i
  proof -
    from that have "int i < ?c" by simp
    then have "(?b + int i) mod N \<noteq> ?e"
      using mod_window_distinct [OF b(1) N _ c'] e by simp
    moreover have "0 \<le> (?b + int i) mod N" using N by (rule pos_mod_sign)
    ultimately have "nat ((?b + int i) mod N) \<noteq> nat ?e"
      using e0 by (simp only: eq_nat_nat_iff not_False_eq_True)
    then show ?thesis by simp
  qed
  then show ?thesis by (simp add: StaticQueue_pending_def)
qed

lemma alloc_net_event_ok:
  assumes "StaticQueue_wf N q" and "sq_cnt q \<noteq> N" and "is_valid_slot sl slot"
  shows "alloc_net_event N sl slot ty q =
           (1, Some (sq_end q),
            q\<lparr>sq_q := (sq_q q)[nat (sq_end q) :=
                         (sq_q q ! nat (sq_end q))\<lparr>slot_id := slot, ev_type := ty\<rparr>],
              sq_end := (sq_end q + 1) mod N, sq_cnt := sq_cnt q + 1\<rparr>)"
proof -
  from assms(1) have e: "0 \<le> sq_end q" "sq_end q < N" and len: "int (length (sq_q q)) = N"
    by (auto simp: StaticQueue_wf_def)
  then have "nat (sq_end q) < length (sq_q q)" by simp
  then show ?thesis
    using assms(3) StaticQueue_create_some [OF e assms(2)]
    by (simp add: alloc_net_event_def StaticQueue_store_def Let_def)
qed

text \<open>
  C10, as the code has it. When the slot is valid, the event ring has room, the payload length is not zero
  and \<^verbatim>\<open>dl_allocate_safe\<close> returns \<^verbatim>\<open>nullptr\<close>, \<^verbatim>\<open>create_rpc_answer_event\<close> returns \<open>- 1\<close> and
  writes nothing to \<^verbatim>\<open>*res\<close>. The queue it leaves has the begin index, the end index, the
  count and the pending records it had before the call; the one cell the call wrote to
  (the slot id and the type of the record it had created) is the free cell at the end
  index, which holds no record of the queue.
\<close>

theorem create_rpc_answer_event_rollback:
  assumes wf: "StaticQueue_wf N q" and room: "sq_cnt q \<noteq> N" and valid: "is_valid_slot sl slot"
    and len: "len \<noteq> 0"
    and fail: "dl_allocate_safe ml_flag dl_allocate (size_t_of_int len) = Inr None"
  shows "\<exists>q'. create_rpc_answer_event N ml_flag dl_allocate sl slot len res_given q
                = Inr (- 1, None, q')
              \<and> sq_begin q' = sq_begin q \<and> sq_end q' = sq_end q \<and> sq_cnt q' = sq_cnt q
              \<and> StaticQueue_pending N q' = StaticQueue_pending N q
              \<and> q' = q\<lparr>sq_q := (sq_q q)[nat (sq_end q) :=
                          (sq_q q ! nat (sq_end q))\<lparr>slot_id := slot, ev_type := ne_rpc_answer\<rparr>]\<rparr>"
proof -
  let ?cell = "(sq_q q ! nat (sq_end q))\<lparr>slot_id := slot, ev_type := ne_rpc_answer\<rparr>"
  let ?q1 = "q\<lparr>sq_q := (sq_q q)[nat (sq_end q) := ?cell],
               sq_end := (sq_end q + 1) mod N, sq_cnt := sq_cnt q + 1\<rparr>"
  let ?q' = "q\<lparr>sq_q := (sq_q q)[nat (sq_end q) := ?cell]\<rparr>"
  from wf have e: "0 \<le> sq_end q" "sq_end q < N" by (auto simp: StaticQueue_wf_def)
  have alloc: "alloc_net_event N sl slot ne_rpc_answer q = (1, Some (sq_end q), ?q1)"
    by (rule alloc_net_event_ok [OF wf room valid])
  have "(if (sq_end q + 1) mod N - 1 = - 1 then N - 1 else (sq_end q + 1) mod N - 1) = sq_end q"
    using e by (auto simp: mod_pos_pos_trivial wrap_succ_mod [symmetric] split: if_splits)
  then have undo: "unalloc_net_event N (sq_end q) ?q1 = Inr ?q'"
    by (simp add: unalloc_net_event_def StaticQueue_undo_create_def Let_def)
  have run: "create_rpc_answer_event N ml_flag dl_allocate sl slot len res_given q = Inr (- 1, None, ?q')"
    using len by (simp add: create_rpc_answer_event_def alloc fail undo)
  have "StaticQueue_pending N ?q' = StaticQueue_pending N q"
    by (rule StaticQueue_pending_store_end [OF wf room])
  with run show ?thesis by simp
qed

theorem create_rpc_answer_event_rollback_witness:
  "StaticQueue_wf 2 \<lparr>sq_q = replicate 2 \<lparr>slot_id = 0, ev_type = ne_rpc_error, error_code = 0,
        error_message = [], result = None, result_len = 0\<rparr>, sq_begin = 1, sq_end = 1, sq_cnt = 0\<rparr>
   \<and> is_valid_slot \<lparr>begin_slot_id = 5, end_slot_id = 9\<rparr> 6
   \<and> dl_allocate_safe False (\<lambda>n. None) (size_t_of_int 10) = Inr None
   \<and> (\<exists>q'. create_rpc_answer_event 2 False (\<lambda>n. None) \<lparr>begin_slot_id = 5, end_slot_id = 9\<rparr> 6 10 True
        \<lparr>sq_q = replicate 2 \<lparr>slot_id = 0, ev_type = ne_rpc_error, error_code = 0,
        error_message = [], result = None, result_len = 0\<rparr>, sq_begin = 1, sq_end = 1, sq_cnt = 0\<rparr>
        = Inr (- 1, None, q') \<and> sq_end q' = 1 \<and> sq_cnt q' = 0 \<and> StaticQueue_pending 2 q' = [])"
proof -
  let ?q = "\<lparr>sq_q = replicate 2 \<lparr>slot_id = 0, ev_type = ne_rpc_error, error_code = 0,
        error_message = [], result = None, result_len = 0\<rparr>, sq_begin = 1, sq_end = 1, sq_cnt = 0 :: int\<rparr>"
  have wf: "StaticQueue_wf 2 ?q" by (simp add: StaticQueue_wf_def)
  have room: "sq_cnt ?q \<noteq> 2" by simp
  have valid: "is_valid_slot \<lparr>begin_slot_id = 5, end_slot_id = 9\<rparr> 6"
    by (simp add: is_valid_slot_def)
  have len: "(10::int) \<noteq> 0" by simp
  have fail: "dl_allocate_safe False (\<lambda>n. None) (size_t_of_int 10) = Inr None"
    by (simp add: dl_allocate_safe_def size_t_of_int_def)
  have p: "StaticQueue_pending 2 ?q = []" by (simp add: StaticQueue_pending_def)
  from create_rpc_answer_event_rollback [OF wf room valid len fail, of True] wf valid fail p
  show ?thesis by (simp del: replicate_Suc)
qed

text \<open>
  C10, as the claim states it, fails: the queue after the failed call is not the queue
  before it. \<^verbatim>\<open>alloc_net_event\<close> writes the slot id and the type into the record it
  created, and \<^verbatim>\<open>undo_create\<close> takes back the end index and the count only. Here the cell
  at the end index 1 held slot id 0 and type \<^verbatim>\<open>ne_rpc_error\<close> before the call and holds slot
  id 6 and type \<^verbatim>\<open>ne_rpc_answer\<close> after it.
\<close>

theorem create_rpc_answer_event_rollback_counterexample:
  "create_rpc_answer_event 2 False Map.empty \<lparr>begin_slot_id = 5, end_slot_id = 9\<rparr> 6 10 True
     \<lparr>sq_q = [\<lparr>slot_id = 0, ev_type = ne_rpc_error, error_code = 0, error_message = [],
                result = None, result_len = 0\<rparr>,
              \<lparr>slot_id = 0, ev_type = ne_rpc_error, error_code = 0, error_message = [],
                result = None, result_len = 0\<rparr>],
      sq_begin = 1, sq_end = 1, sq_cnt = 0\<rparr>
   = Inr (- 1, None,
     \<lparr>sq_q = [\<lparr>slot_id = 0, ev_type = ne_rpc_error, error_code = 0, error_message = [],
                result = None, result_len = 0\<rparr>,
              \<lparr>slot_id = 6, ev_type = ne_rpc_answer, error_code = 0, error_message = [],
                result = None, result_len = 0\<rparr>],
      sq_begin = 1, sq_end = 1, sq_cnt = 0\<rparr>)
   \<and> \<lparr>sq_q = [\<lparr>slot_id = 0, ev_type = ne_rpc_error, error_code = 0, error_message = [],
                result = None, result_len = 0\<rparr>,
              \<lparr>slot_id = 6, ev_type = ne_rpc_answer, error_code = 0, error_message = [],
                result = None, result_len = 0\<rparr>],
      sq_begin = 1, sq_end = 1, sq_cnt = 0 :: int\<rparr>
     \<noteq> \<lparr>sq_q = [\<lparr>slot_id = 0, ev_type = ne_rpc_error, error_code = 0, error_message = [],
                result = None, result_len = 0\<rparr>,
              \<lparr>slot_id = 0, ev_type = ne_rpc_error, error_code = 0, error_message = [],
                result = None, result_len = 0\<rparr>],
      sq_begin = 1, sq_end = 1, sq_cnt = 0\<rparr>"
  by (simp add: create_rpc_answer_event_def alloc_net_event_def is_valid_slot_def
      StaticQueue_create_def StaticQueue_store_def unalloc_net_event_def
      StaticQueue_undo_create_def dl_allocate_safe_def size_t_of_int_def Let_def)

section \<open>Properties of the answer generators\<close>

subsection \<open>Generations and liveness\<close>

lemma qmem_free_ptrs_total:
  "qmem_generation s < 2 ^ 63 - 1 \<Longrightarrow> \<exists>s'. qmem_free_ptrs s = Inr s'"
  by (cases "reclaims s") (simp_all add: qmem_free_ptrs_reclaims qmem_free_ptrs_keeps)

lemma qmem_clear_total:
  "state s = st_inited \<Longrightarrow> qmem_generation s < 2 ^ 63 - 1 \<Longrightarrow> \<exists>s'. qmem_clear s = Inr s'"
  by (simp add: qmem_clear_def Let_def incr_generation_def foldl_sys_free_generation)

lemma sys_malloc_generation:
  "sys_malloc sz s = Some (p, s') \<Longrightarrow> qmem_generation s' = qmem_generation s"
  by (auto simp: sys_malloc_def split: if_splits)

lemma mc_ansgen_packet_create_generation:
  assumes "mc_ansgen_packet_create hc s = Inr (a, s')"
  shows "qmem_req_generation (base a) = qmem_generation s"
    and "qmem_generation s' = qmem_generation s"
    and "ag_state (base a) = st_ansgen_wait" and "ap_state a = ap_any"
proof -
  from assms obtain p1 s1 p2 s2 b where m: "sys_malloc (sizeof_mc_ansgen_packet_t hc) s = Some (p1, s1)"
    and a: "qmem_malloc (sizeof_answer_t hc) s1 = Inr (p2, s2)"
    and b: "str_buf_create hc s2 = Inr (b, s')"
    and r: "a = \<lparr>base = \<lparr>qmem_req_generation = qmem_generation s, ag_state = st_ansgen_wait,
                  ans = \<lparr>nq_state = nq_state_zero hc, res = None, res_len = 0, desc = None\<rparr>\<rparr>,
                ap_state = ap_any, str_buf = b\<rparr>"
    unfolding mc_ansgen_packet_create_def qmem_malloc0_def
    by (auto split: option.splits sum.splits)
  from b obtain p3 where "qmem_malloc (sizeof_str_buf_t hc) s2 = Inr (p3, s')"
    unfolding str_buf_create_def by (auto split: sum.splits)
  then have "qmem_generation s' = qmem_generation s2" by (rule qmem_malloc_generation)
  also have "\<dots> = qmem_generation s1" using a by (rule qmem_malloc_generation)
  also have "\<dots> = qmem_generation s" using m by (rule sys_malloc_generation)
  finally show "qmem_generation s' = qmem_generation s" .
  from r show "qmem_req_generation (base a) = qmem_generation s"
    "ag_state (base a) = st_ansgen_wait" "ap_state a = ap_any" by simp_all
qed

text \<open>
  C2. \<^verbatim>\<open>qmem_free_ptrs\<close> and \<^verbatim>\<open>qmem_clear\<close> add one to the generation whenever they return,
  \<^verbatim>\<open>qmem_free_ptrs\<close> whether it reclaims or not, and \<^verbatim>\<open>qmem_free_ptrs\<close> returns unless the
  counter is at the largest \<^verbatim>\<open>long long\<close>. Hence a generator that
  \<^verbatim>\<open>mc_ansgen_packet_create\<close> made is not alive after a later reclaim call, whatever calls
  the pool serves between the creation and the reclaim and after the reclaim; and so is
  every generator whose captured generation is at most the generation of the pool at the
  reclaim call, as the generation captured at any earlier creation is.
\<close>

theorem generation_monotone_stale:
  "(qmem_free_ptrs s = Inr s' \<longrightarrow> qmem_generation s' = qmem_generation s + 1)
   \<and> (qmem_clear s = Inr s' \<longrightarrow> qmem_generation s' = qmem_generation s + 1)
   \<and> (qmem_generation s < 2 ^ 63 - 1 \<longrightarrow> (\<exists>t. qmem_free_ptrs s = Inr t))
   \<and> (mc_ansgen_packet_create hc s0 = Inr (a, s1) \<and> qmem_exec ops1 (s1, l1) = Inr (s2, l2)
        \<and> (r = SoftReclaim \<or> r = HardReclaim) \<and> qmem_step r (s2, l2) = Inr (s3, l3)
        \<and> qmem_exec ops2 (s3, l3) = Inr (s4, l4)
      \<longrightarrow> \<not> net_ansgen_is_alive s4 (base a))
   \<and> (qmem_req_generation b \<le> qmem_generation t2
        \<and> (r = SoftReclaim \<or> r = HardReclaim) \<and> qmem_step r (t2, k2) = Inr (t3, k3)
        \<and> qmem_exec ops3 (t3, k3) = Inr (t4, k4)
      \<longrightarrow> \<not> net_ansgen_is_alive t4 b)"
proof (intro conjI impI)
  show "qmem_generation s' = qmem_generation s + 1" if "qmem_free_ptrs s = Inr s'"
    using that by (rule qmem_free_ptrs_generation)
  show "qmem_generation s' = qmem_generation s + 1" if "qmem_clear s = Inr s'"
    using that by (rule qmem_clear_generation)
  show "\<exists>t. qmem_free_ptrs s = Inr t" if "qmem_generation s < 2 ^ 63 - 1"
    using that by (rule qmem_free_ptrs_total)
  assume h: "mc_ansgen_packet_create hc s0 = Inr (a, s1) \<and> qmem_exec ops1 (s1, l1) = Inr (s2, l2)
        \<and> (r = SoftReclaim \<or> r = HardReclaim) \<and> qmem_step r (s2, l2) = Inr (s3, l3)
        \<and> qmem_exec ops2 (s3, l3) = Inr (s4, l4)"
  then have c: "mc_ansgen_packet_create hc s0 = Inr (a, s1)" by simp
  have "qmem_req_generation (base a) = qmem_generation s1"
    using mc_ansgen_packet_create_generation(1,2) [OF c] by simp
  also have "\<dots> \<le> qmem_generation s2"
    using h qmem_exec_generation [of ops1 "(s1, l1)" "(s2, l2)"] by simp
  also have "\<dots> < qmem_generation s3"
    using h qmem_step_generation(2) [of r s2 l2 s3 l3] by simp
  also have "\<dots> \<le> qmem_generation s4"
    using h qmem_exec_generation [of ops2 "(s3, l3)" "(s4, l4)"] by simp
  finally show "\<not> net_ansgen_is_alive s4 (base a)"
    by (simp add: net_ansgen_is_alive_def)
next
  assume h: "qmem_req_generation b \<le> qmem_generation t2
        \<and> (r = SoftReclaim \<or> r = HardReclaim) \<and> qmem_step r (t2, k2) = Inr (t3, k3)
        \<and> qmem_exec ops3 (t3, k3) = Inr (t4, k4)"
  then have "qmem_req_generation b \<le> qmem_generation t2" by simp
  also have "\<dots> < qmem_generation t3"
    using h qmem_step_generation(2) [of r t2 k2 t3 k3] by simp
  also have "\<dots> \<le> qmem_generation t4"
    using h qmem_exec_generation [of ops3 "(t3, k3)" "(t4, k4)"] by simp
  finally show "\<not> net_ansgen_is_alive t4 b"
    by (simp add: net_ansgen_is_alive_def)
qed

theorem generation_monotone_stale_witness:
  "\<exists>a s1 s3 l3.
     mc_ansgen_packet_create
        \<lparr>sizeof_mc_ansgen_packet_t = 64, sizeof_answer_t = 40, sizeof_str_buf_t = 16,
         nq_state_zero = nq_ok\<rparr>
        \<lparr>pages = (\<lambda>i. (i, 0)), pages_size = (\<lambda>i. 4194304),
         cur_mem = 8388608, used_mem = 0, pages_n = 2, state = st_inited,
         left = [(4194304, (0, 0)), (4194304, (1, 0))], qmem_generation = 0,
         heap_next = 2, heap_avail = 100000000\<rparr> = Inr (a, s1)
     \<and> net_ansgen_is_alive s1 (base a)
     \<and> qmem_step SoftReclaim (s1, []) = Inr (s3, l3)
     \<and> \<not> net_ansgen_is_alive s3 (base a)"
proof -
  let ?hc = "\<lparr>sizeof_mc_ansgen_packet_t = 64, sizeof_answer_t = 40, sizeof_str_buf_t = 16,
         nq_state_zero = nq_ok\<rparr>"
  let ?S = "\<lparr>pages = (\<lambda>i. (i, 0 :: nat)), pages_size = (\<lambda>i. 4194304),
         cur_mem = 8388608, used_mem = 0, pages_n = 2, state = st_inited,
         left = [(4194304, (0, 0)), (4194304, (1, 0))], qmem_generation = 0,
         heap_next = 2, heap_avail = 100000000\<rparr>"
  obtain a s1 where c: "mc_ansgen_packet_create ?hc ?S = Inr (a, s1)"
    by (simp add: mc_ansgen_packet_create_def str_buf_create_def qmem_eval)
  note g = mc_ansgen_packet_create_generation [OF c]
  from g have alive: "net_ansgen_is_alive s1 (base a)" by (simp add: net_ansgen_is_alive_def)
  from g(2) have "qmem_generation s1 < 2 ^ 63 - 1" by simp
  then obtain s3 where f: "qmem_free_ptrs s1 = Inr s3" using qmem_free_ptrs_total by blast
  then have step: "qmem_step SoftReclaim (s1, []) = Inr (s3, [])" by simp
  have "qmem_exec [] (s1, []) = Inr (s1, [])" "qmem_exec [] (s3, []) = Inr (s3, [])" by simp_all
  with c step generation_monotone_stale [of s1 s3 ?hc ?S a s1 "[]" "[]" s1 "[]" SoftReclaim s3 "[]" "[]" s3 "[]"]
  have "\<not> net_ansgen_is_alive s3 (base a)" by blast
  with c alive step show ?thesis by blast
qed

subsection \<open>Timeout\<close>

lemma qmem_exec_from_zero_nonneg:
  "qmem_exec ops (qmem_zero h, []) = Inr (s, live) \<Longrightarrow> 0 \<le> qmem_generation s"
  using qmem_exec_generation [of ops "(qmem_zero h, [])" "(s, live)"]
  by (simp add: qmem_zero_def)

text \<open>
  C3, as the code has it. On a generator that waits and is alive, \<^verbatim>\<open>net_ansgen_timeout\<close>
  returns, the answer is the error \<open>Timeout\<close> and the captured generation is \<open>- 1\<close>, which
  is the generation of no pool state the program reaches: the generator is dead from then
  on. The state of the generator is still \<^verbatim>\<open>st_ansgen_wait\<close>.
\<close>

theorem net_ansgen_timeout_alive:
  assumes "ag_state a = st_ansgen_wait" and "net_ansgen_is_alive s a"
  shows "\<exists>a'. net_ansgen_timeout s a = Inr a'
           \<and> nq_state (ans a') = nq_error \<and> res (ans a') = Some ''Timeout''
           \<and> qmem_req_generation a' = - 1
           \<and> (\<forall>ops h t live. qmem_exec ops (qmem_zero h, []) = Inr (t, live)
                 \<longrightarrow> \<not> net_ansgen_is_alive t a')
           \<and> ag_state a' = st_ansgen_wait"
proof -
  let ?a' = "a\<lparr>ans := (ans a)\<lparr>nq_state := nq_error, res := Some ''Timeout''\<rparr>,
               qmem_req_generation := - 1\<rparr>"
  from assms have r: "net_ansgen_timeout s a = Inr ?a'" by (simp add: net_ansgen_timeout_def)
  have dead: "\<not> net_ansgen_is_alive t ?a'" if "qmem_exec ops (qmem_zero h, []) = Inr (t, live)"
    for ops h t live
    using qmem_exec_from_zero_nonneg [OF that] by (simp add: net_ansgen_is_alive_def)
  have f: "nq_state (ans ?a') = nq_error" "res (ans ?a') = Some ''Timeout''"
    "qmem_req_generation ?a' = - 1" "ag_state ?a' = st_ansgen_wait"
    using assms(1) by simp_all
  from r dead f show ?thesis by blast
qed

theorem net_ansgen_timeout_alive_witness:
  "ag_state \<lparr>qmem_req_generation = 0, ag_state = st_ansgen_wait,
             ans = \<lparr>nq_state = nq_ok, res = None, res_len = 0, desc = None\<rparr>\<rparr> = st_ansgen_wait
   \<and> net_ansgen_is_alive (qmem_zero 0)
        \<lparr>qmem_req_generation = 0, ag_state = st_ansgen_wait,
         ans = \<lparr>nq_state = nq_ok, res = None, res_len = 0, desc = None\<rparr>\<rparr>
   \<and> (\<exists>a'. net_ansgen_timeout (qmem_zero 0)
              \<lparr>qmem_req_generation = 0, ag_state = st_ansgen_wait,
               ans = \<lparr>nq_state = nq_ok, res = None, res_len = 0, desc = None\<rparr>\<rparr> = Inr a'
         \<and> res (ans a') = Some ''Timeout'' \<and> qmem_req_generation a' = - 1
         \<and> \<not> net_ansgen_is_alive (qmem_zero 0) a')"
proof -
  let ?a = "\<lparr>qmem_req_generation = 0, ag_state = st_ansgen_wait,
             ans = \<lparr>nq_state = nq_ok, res = None, res_len = 0, desc = None\<rparr>\<rparr>"
  have w: "ag_state ?a = st_ansgen_wait" by simp
  have l: "net_ansgen_is_alive (qmem_zero 0) ?a"
    by (simp add: net_ansgen_is_alive_def qmem_zero_def)
  have z: "qmem_exec [] (qmem_zero 0, []) = Inr (qmem_zero 0, [])" by simp
  from net_ansgen_timeout_alive [OF w l] obtain a' where
    "net_ansgen_timeout (qmem_zero 0) ?a = Inr a'" "res (ans a') = Some ''Timeout''"
    "qmem_req_generation a' = - 1"
    "\<forall>ops h t live. qmem_exec ops (qmem_zero h, []) = Inr (t, live) \<longrightarrow> \<not> net_ansgen_is_alive t a'"
    by blast
  with z w l show ?thesis by blast
qed

text \<open>
  C3, as the claim states it, fails: after \<^verbatim>\<open>net_ansgen_timeout\<close> on a generator that waits
  and is alive, the state of the generator is \<^verbatim>\<open>st_ansgen_wait\<close>; it has not left Waiting.
\<close>

theorem net_ansgen_timeout_state_counterexample:
  "net_ansgen_timeout (qmem_zero 0)
     \<lparr>qmem_req_generation = 0, ag_state = st_ansgen_wait,
      ans = \<lparr>nq_state = nq_ok, res = None, res_len = 0, desc = None\<rparr>\<rparr>
   = Inr \<lparr>qmem_req_generation = - 1, ag_state = st_ansgen_wait,
          ans = \<lparr>nq_state = nq_error, res = Some ''Timeout'', res_len = 0, desc = None\<rparr>\<rparr>"
  by (simp add: net_ansgen_timeout_def net_ansgen_is_alive_def qmem_zero_def)

subsection \<open>The memcached sub-state\<close>

lemma mc_raise_wait:
  assumes "ag_state (base self) = st_ansgen_wait"
  shows "\<exists>b. mc_raise s self msg = Inr (self\<lparr>base := b\<rparr>, s) \<and> ag_state b = st_ansgen_error
             \<and> (net_ansgen_is_alive s (base self)
                  \<longrightarrow> nq_state (ans b) = nq_error \<and> res (ans b) = Some msg)"
proof (cases "net_ansgen_is_alive s (base self)")
  case True
  let ?b = "(base self)\<lparr>ans := (ans (base self))\<lparr>nq_state := nq_error, res := Some msg\<rparr>,
                        ag_state := st_ansgen_error\<rparr>"
  from assms True have "mc_raise s self msg = Inr (self\<lparr>base := ?b\<rparr>, s)"
    by (simp add: mc_raise_def net_ansgen_error_def Let_def)
  moreover have "ag_state ?b = st_ansgen_error" "nq_state (ans ?b) = nq_error"
    "res (ans ?b) = Some msg" by simp_all
  ultimately show ?thesis by blast
next
  case False
  let ?b = "(base self)\<lparr>ag_state := st_ansgen_error\<rparr>"
  from assms False have "mc_raise s self msg = Inr (self\<lparr>base := ?b\<rparr>, s)"
    by (simp add: mc_raise_def net_ansgen_error_def Let_def)
  moreover have "ag_state ?b = st_ansgen_error" by simp
  ultimately show ?thesis using False by blast
qed

lemma mc_publish_Inr:
  assumes "mc_publish s self reader = Inr (self', s')"
  shows "ap_state self' = ap_state self \<and> ag_state (base self') = st_ansgen_done"
  using assms unfolding mc_publish_def
  by (auto split: if_splits sum.splits)

lemma mc_ansgen_packet_value_Inr:
  assumes "mc_ansgen_packet_value s self reader = Inr (self', s')"
    and "ap_state self = ap_any \<or> ap_state self = ap_get"
  shows "ap_state self' = ap_get" and "ag_state (base self') = ag_state (base self)"
  using assms unfolding mc_ansgen_packet_value_def Let_def
  by (auto split: if_splits sum.splits)

lemma mc_commit_or_errorI:
  assumes w: "ag_state (base self) = st_ansgen_wait"
    and commit: "\<forall>self' s'. (ap_state self = ap_any \<or> ap_state self = k) \<longrightarrow> call = Inr (self', s')
        \<longrightarrow> ap_state self' = k \<and> ag_state (base self') \<noteq> st_ansgen_error"
    and err: "ap_state self \<noteq> ap_any \<and> ap_state self \<noteq> k \<longrightarrow> call = mc_raise s self m"
  shows "(Some m = Some msg \<longrightarrow>
            (ap_state self = ap_any \<or> ap_state self = k \<longrightarrow>
               (\<forall>self' s'. call = Inr (self', s') \<longrightarrow>
                  ap_state self' = k \<and> ag_state (base self') \<noteq> st_ansgen_error))
            \<and> (ap_state self \<noteq> ap_any \<and> ap_state self \<noteq> k \<longrightarrow>
               (\<exists>b. call = Inr (self\<lparr>base := b\<rparr>, s) \<and> ag_state b = st_ansgen_error
                    \<and> (net_ansgen_is_alive s (base self)
                         \<longrightarrow> nq_state (ans b) = nq_error \<and> res (ans b) = Some msg))))
         \<and> (Some m = None \<longrightarrow> ap_state self \<noteq> ap_version \<longrightarrow> call = Inr (self, s))"
proof (intro conjI impI)
  assume "Some m = Some msg"
  then have m: "m = msg" by simp
  show "\<forall>self' s'. call = Inr (self', s') \<longrightarrow>
               ap_state self' = k \<and> ag_state (base self') \<noteq> st_ansgen_error"
    if "ap_state self = ap_any \<or> ap_state self = k"
    using commit that by blast
  show "\<exists>b. call = Inr (self\<lparr>base := b\<rparr>, s) \<and> ag_state b = st_ansgen_error
                 \<and> (net_ansgen_is_alive s (base self)
                      \<longrightarrow> nq_state (ans b) = nq_error \<and> res (ans b) = Some msg)"
    if "ap_state self \<noteq> ap_any \<and> ap_state self \<noteq> k"
  proof -
    from err that have "call = mc_raise s self msg" unfolding m by blast
    with mc_raise_wait [OF w, of s msg] show ?thesis by simp
  qed
next
  assume "Some m = None"
  then show "call = Inr (self, s)" by simp
qed

text \<open>
  C4, as the code has it. Take a generator in \<^verbatim>\<open>st_ansgen_wait\<close>. A value, end, stored
  or other fragment delivered while the sub-state is undetermined or is the fragment's
  own commits the generator to that sub-state and raises no error, if the call returns.
  Delivered while the generator is committed to another sub-state, it raises the error
  with the message of its kind: the generator enters \<^verbatim>\<open>st_ansgen_error\<close> and, when it is
  alive, the answer is that error. A version fragment delivered in any sub-state other
  than \<^verbatim>\<open>ap_version\<close> changes nothing: it neither commits the generator nor raises an
  error.
\<close>

theorem mc_commit_or_error:
  assumes "ag_state (base self) = st_ansgen_wait"
  shows "(mc_fragment_message f = Some msg \<longrightarrow>
            (ap_state self = ap_any \<or> ap_state self = mc_fragment_state f \<longrightarrow>
               (\<forall>self' s'. mc_deliver s self f = Inr (self', s') \<longrightarrow>
                  ap_state self' = mc_fragment_state f
                  \<and> ag_state (base self') \<noteq> st_ansgen_error))
            \<and> (ap_state self \<noteq> ap_any \<and> ap_state self \<noteq> mc_fragment_state f \<longrightarrow>
               (\<exists>b. mc_deliver s self f = Inr (self\<lparr>base := b\<rparr>, s)
                    \<and> ag_state b = st_ansgen_error
                    \<and> (net_ansgen_is_alive s (base self)
                         \<longrightarrow> nq_state (ans b) = nq_error \<and> res (ans b) = Some msg))))
         \<and> (mc_fragment_message f = None \<longrightarrow> ap_state self \<noteq> ap_version \<longrightarrow>
               mc_deliver s self f = Inr (self, s))"
proof (cases f)
  case (FValue reader)
  have 1: "\<forall>self' s'. (ap_state self = ap_any \<or> ap_state self = ap_get) \<longrightarrow>
      mc_ansgen_packet_value s self reader = Inr (self', s') \<longrightarrow>
      ap_state self' = ap_get \<and> ag_state (base self') \<noteq> st_ansgen_error"
    using mc_ansgen_packet_value_Inr assms by fastforce
  have 2: "ap_state self \<noteq> ap_any \<and> ap_state self \<noteq> ap_get \<longrightarrow>
      mc_ansgen_packet_value s self reader = mc_raise s self ''Unexpected VALUE''"
    by (simp add: mc_ansgen_packet_value_def)
  show ?thesis
    unfolding FValue mc_deliver.simps mc_fragment_state.simps mc_fragment_message.simps
    by (rule mc_commit_or_errorI [OF assms 1 2])
next
  case FEnd
  have 1: "\<forall>self' s'. (ap_state self = ap_any \<or> ap_state self = ap_get) \<longrightarrow>
      mc_ansgen_packet_end s self = Inr (self', s') \<longrightarrow>
      ap_state self' = ap_get \<and> ag_state (base self') \<noteq> st_ansgen_error"
    using assms by (auto simp: mc_ansgen_packet_end_def dest!: mc_publish_Inr)
  have 2: "ap_state self \<noteq> ap_any \<and> ap_state self \<noteq> ap_get \<longrightarrow>
      mc_ansgen_packet_end s self = mc_raise s self ''Unexpected END''"
    using assms by (simp add: mc_ansgen_packet_end_def)
  show ?thesis
    unfolding FEnd mc_deliver.simps mc_fragment_state.simps mc_fragment_message.simps
    by (rule mc_commit_or_errorI [OF assms 1 2])
next
  case (FStored is_stored)
  have 1: "\<forall>self' s'. (ap_state self = ap_any \<or> ap_state self = ap_store) \<longrightarrow>
      mc_ansgen_packet_xstored s self is_stored = Inr (self', s') \<longrightarrow>
      ap_state self' = ap_store \<and> ag_state (base self') \<noteq> st_ansgen_error"
    by (auto simp: mc_ansgen_packet_xstored_def dest!: mc_publish_Inr)
  have 2: "ap_state self \<noteq> ap_any \<and> ap_state self \<noteq> ap_store \<longrightarrow>
      mc_ansgen_packet_xstored s self is_stored = mc_raise s self ''Unexpected STORED''"
    by (simp add: mc_ansgen_packet_xstored_def)
  show ?thesis
    unfolding FStored mc_deliver.simps mc_fragment_state.simps mc_fragment_message.simps
    by (rule mc_commit_or_errorI [OF assms 1 2])
next
  case (FVersion reader)
  show ?thesis
    unfolding FVersion mc_deliver.simps mc_fragment_state.simps mc_fragment_message.simps
    by (simp add: mc_ansgen_packet_version_def)
next
  case (FOther reader)
  have 1: "\<forall>self' s'. (ap_state self = ap_any \<or> ap_state self = ap_other) \<longrightarrow>
      mc_ansgen_packet_other s self reader = Inr (self', s') \<longrightarrow>
      ap_state self' = ap_other \<and> ag_state (base self') \<noteq> st_ansgen_error"
    by (auto simp: mc_ansgen_packet_other_def dest!: mc_publish_Inr)
  have 2: "ap_state self \<noteq> ap_any \<and> ap_state self \<noteq> ap_other \<longrightarrow>
      mc_ansgen_packet_other s self reader = mc_raise s self ''Unexpected \"other\" command''"
    by (simp add: mc_ansgen_packet_other_def)
  show ?thesis
    unfolding FOther mc_deliver.simps mc_fragment_state.simps mc_fragment_message.simps
    by (rule mc_commit_or_errorI [OF assms 1 2])
qed

theorem mc_commit_or_error_witness:
  "(\<exists>self' s'. mc_deliver
        \<lparr>pages = (\<lambda>i. (i, 0)), pages_size = (\<lambda>i. 4194304),
         cur_mem = 8388608, used_mem = 0, pages_n = 2, state = st_inited,
         left = [(4194304, (0, 0)), (4194304, (1, 0))], qmem_generation = 0,
         heap_next = 2, heap_avail = 100000000\<rparr>
        \<lparr>base = \<lparr>qmem_req_generation = 0, ag_state = st_ansgen_wait,
                 ans = \<lparr>nq_state = nq_ok, res = None, res_len = 0, desc = None\<rparr>\<rparr>,
         ap_state = ap_any, str_buf = \<lparr>sb_buf = [], sb_buf_len = 0, sb_len = 0\<rparr>\<rparr>
        (FValue (init_reader ''ab'')) = Inr (self', s')
      \<and> ap_state self' = ap_get \<and> sb_buf (str_buf self') = ''ab''
      \<and> ag_state (base self') = st_ansgen_wait
      \<and> (\<exists>b. mc_deliver s' self' (FStored 1) = Inr (self'\<lparr>base := b\<rparr>, s')
             \<and> ag_state b = st_ansgen_error \<and> res (ans b) = Some ''Unexpected STORED''))"
proof -
  let ?S = "\<lparr>pages = (\<lambda>i. (i, 0 :: nat)), pages_size = (\<lambda>i. 4194304),
         cur_mem = 8388608, used_mem = 0, pages_n = 2, state = st_inited,
         left = [(4194304, (0, 0)), (4194304, (1, 0))], qmem_generation = 0,
         heap_next = 2, heap_avail = 100000000\<rparr>"
  let ?A = "\<lparr>base = \<lparr>qmem_req_generation = 0, ag_state = st_ansgen_wait,
                 ans = \<lparr>nq_state = nq_ok, res = None, res_len = 0, desc = None\<rparr>\<rparr>,
         ap_state = ap_any, str_buf = \<lparr>sb_buf = [], sb_buf_len = 0, sb_len = 0\<rparr>\<rparr>"
  obtain self' s' where d: "mc_deliver ?S ?A (FValue (init_reader ''ab'')) = Inr (self', s')"
    and buf: "sb_buf (str_buf self') = ''ab''" and w: "ag_state (base self') = st_ansgen_wait"
    and g: "qmem_req_generation (base self') = 0" "qmem_generation s' = 0"
    by (simp add: mc_ansgen_packet_value_def net_ansgen_is_alive_def str_buf_append_def
        int32_ok_def size_t_of_int_def read_str_def init_reader_def qmem_eval)
  have wA: "ag_state (base ?A) = st_ansgen_wait" by simp
  from mc_commit_or_error [OF wA, of "FValue (init_reader ''ab'')" "''Unexpected VALUE''" ?S] d
  have c: "ap_state self' = ap_get" by simp
  from g have alive: "net_ansgen_is_alive s' (base self')" by (simp add: net_ansgen_is_alive_def)
  from mc_commit_or_error [OF w, of "FStored 1" "''Unexpected STORED''" s'] c alive
  have "\<exists>b. mc_deliver s' self' (FStored 1) = Inr (self'\<lparr>base := b\<rparr>, s')
             \<and> ag_state b = st_ansgen_error \<and> res (ans b) = Some ''Unexpected STORED''"
    by auto
  with d c buf w show ?thesis by blast
qed

text \<open>
  C4, as the claim states it, fails for version fragments. Delivered to a generator whose
  sub-state is undetermined, a version fragment leaves the generator as it is: the
  sub-state is still \<^verbatim>\<open>ap_any\<close>. Delivered to a generator committed to \<^verbatim>\<open>ap_get\<close>, it
  leaves the generator as it is, too: no error is raised.
\<close>

theorem mc_version_counterexample:
  "mc_deliver
     \<lparr>pages = (\<lambda>i. (i, 0)), pages_size = (\<lambda>i. 4194304),
      cur_mem = 8388608, used_mem = 0, pages_n = 2, state = st_inited,
      left = [(4194304, (0, 0)), (4194304, (1, 0))], qmem_generation = 0,
      heap_next = 2, heap_avail = 100000000\<rparr>
     \<lparr>base = \<lparr>qmem_req_generation = 0, ag_state = st_ansgen_wait,
              ans = \<lparr>nq_state = nq_ok, res = None, res_len = 0, desc = None\<rparr>\<rparr>,
      ap_state = ap_any, str_buf = \<lparr>sb_buf = [], sb_buf_len = 0, sb_len = 0\<rparr>\<rparr>
     (FVersion (init_reader ''VERSION 1.4''))
   = Inr (\<lparr>base = \<lparr>qmem_req_generation = 0, ag_state = st_ansgen_wait,
              ans = \<lparr>nq_state = nq_ok, res = None, res_len = 0, desc = None\<rparr>\<rparr>,
      ap_state = ap_any, str_buf = \<lparr>sb_buf = [], sb_buf_len = 0, sb_len = 0\<rparr>\<rparr>,
     \<lparr>pages = (\<lambda>i. (i, 0)), pages_size = (\<lambda>i. 4194304),
      cur_mem = 8388608, used_mem = 0, pages_n = 2, state = st_inited,
      left = [(4194304, (0, 0)), (4194304, (1, 0))], qmem_generation = 0,
      heap_next = 2, heap_avail = 100000000\<rparr>)
   \<and> mc_deliver
     \<lparr>pages = (\<lambda>i. (i, 0)), pages_size = (\<lambda>i. 4194304),
      cur_mem = 8388608, used_mem = 0, pages_n = 2, state = st_inited,
      left = [(4194304, (0, 0)), (4194304, (1, 0))], qmem_generation = 0,
      heap_next = 2, heap_avail = 100000000\<rparr>
     \<lparr>base = \<lparr>qmem_req_generation = 0, ag_state = st_ansgen_wait,
              ans = \<lparr>nq_state = nq_ok, res = None, res_len = 0, desc = None\<rparr>\<rparr>,
      ap_state = ap_get, str_buf = \<lparr>sb_buf = [], sb_buf_len = 0, sb_len = 0\<rparr>\<rparr>
     (FVersion (init_reader ''VERSION 1.4''))
   = Inr (\<lparr>base = \<lparr>qmem_req_generation = 0, ag_state = st_ansgen_wait,
              ans = \<lparr>nq_state = nq_ok, res = None, res_len = 0, desc = None\<rparr>\<rparr>,
      ap_state = ap_get, str_buf = \<lparr>sb_buf = [], sb_buf_len = 0, sb_len = 0\<rparr>\<rparr>,
     \<lparr>pages = (\<lambda>i. (i, 0)), pages_size = (\<lambda>i. 4194304),
      cur_mem = 8388608, used_mem = 0, pages_n = 2, state = st_inited,
      left = [(4194304, (0, 0)), (4194304, (1, 0))], qmem_generation = 0,
      heap_next = 2, heap_avail = 100000000\<rparr>)"
  by (simp add: mc_ansgen_packet_version_def)

end
